theory Spec2Isabelle
  imports Main "HOL-Library.Product_Lexorder" "HOL-Library.Char_ord"
    "HOL-Library.List_Lexorder" "HOL-Library.Multiset"
begin

unbundle bit_operations_syntax

section \<open>Shared helpers: Python string operations\<close>

text \<open>\<open>s.split(c)\<close> for a one-character separator: always at least one piece.\<close>

fun split_on :: "char \<Rightarrow> string \<Rightarrow> string list" where
  "split_on c [] = [[]]"
| "split_on c (x # xs) =
     (if x = c then [] # split_on c xs
      else (case split_on c xs of [] \<Rightarrow> [[x]] | p # ps \<Rightarrow> (x # p) # ps))"

definition startswith :: "string \<Rightarrow> string \<Rightarrow> bool" where
  "startswith s p = (take (length p) s = p)"

definition endswith :: "string \<Rightarrow> string \<Rightarrow> bool" where
  "endswith s p = (length p \<le> length s \<and> drop (length s - length p) s = p)"

text \<open>\<open>sep.join(xs)\<close>.\<close>

fun join :: "string \<Rightarrow> string list \<Rightarrow> string" where
  "join sep [] = []"
| "join sep [x] = x"
| "join sep (x # y # ys) = x @ sep @ join sep (y # ys)"

text \<open>An octal literal \<open>0o2775\<close> is written \<open>oct [2,7,7,5]\<close>.\<close>

definition oct :: "int list \<Rightarrow> int" where
  "oct ds = foldl (\<lambda>a d. 8 * a + d) 0 ds"

section \<open>do.py: the archive builder\<close>

subsection \<open>Paths (pathlib.PurePosixPath)\<close>

text \<open>
  A \<open>PurePosixPath\<close> is its tuple of parts. Building one from a string drops empty and
  \<open>.\<close> components; a leading slash becomes the root part (\<open>//\<close> when there are exactly
  two).
\<close>

datatype path_like = Str string | PurePosixPath (parts: "string list")

definition posix_root :: "string \<Rightarrow> string" where
  "posix_root s =
     (if startswith s ''//'' \<and> \<not> startswith s ''///'' then ''//''
      else if startswith s ''/'' then ''/'' else '''')"

definition parse_parts :: "string \<Rightarrow> string list" where
  "parse_parts s =
     (if posix_root s = '''' then [] else [posix_root s])
     @ filter (\<lambda>p. p \<noteq> '''' \<and> p \<noteq> ''.'') (split_on CHR ''/'' s)"

fun to_parts :: "path_like \<Rightarrow> string list" where
  "to_parts (Str s) = parse_parts s"
| "to_parts (PurePosixPath ps) = ps"

definition is_absolute :: "string list \<Rightarrow> bool" where
  "is_absolute ps = (case ps of [] \<Rightarrow> False | p # _ \<Rightarrow> startswith p ''/'')"

definition as_posix :: "string list \<Rightarrow> string" where
  "as_posix ps =
     (case ps of [] \<Rightarrow> ''.''
      | p # rest \<Rightarrow> if startswith p ''/'' then p @ join ''/'' rest else join ''/'' ps)"

subsection \<open>Timestamps\<close>

text \<open>
  \<open>date_time\<close> is the six-field tuple a \<open>ZipInfo\<close> stores; \<open>datetime\<close> adds the
  microsecond. Python compares tuples lexicographically, and two aware datetimes with the
  same \<open>tzinfo\<close> object by their calendar fields; both are the lexicographic order on
  products.
\<close>

type_synonym date_time = "int \<times> int \<times> int \<times> int \<times> int \<times> int"
type_synonym datetime = "int \<times> int \<times> int \<times> int \<times> int \<times> int \<times> int"

fun timetuple6 :: "datetime \<Rightarrow> date_time" where
  "timetuple6 (y, mo, d, h, mi, s, us) = (y, mo, d, h, mi, s)"

datatype error =
    AssertionError
  | ValueError_before datetime
  | ValueError_after datetime
  | ValueError_zip_before_1980
  | NotImplemented_not_callable
  | NotImplementedError
  | IndexError
  | ValueError_int string
  | LibraryError string

text \<open>
  The conversions into local calendar time belong to the \<open>datetime\<close> library and to the
  timezone object \<open>get_tzinfo()\<close> returns; they are parameters. \<open>'ts\<close> is the type of
  instants passed in (a float or int timestamp, or a \<open>DateTime\<close> object).
  \<^item> \<open>localize_timestamp x\<close> is \<open>DateTime.fromtimestamp(x, tz=UTC).astimezone(tz)\<close>;
  \<^item> \<open>localize_naive t\<close> is \<open>DateTime(*t).astimezone(tz)\<close>;
  \<^item> \<open>localize_datetime d\<close> is \<open>d.astimezone(tz)\<close>.
  Each may raise (a year out of range, an invalid tuple).
\<close>

record 'ts tzinfo =
  localize_timestamp :: "'ts \<Rightarrow> error + datetime"
  localize_naive :: "int list \<Rightarrow> error + datetime"
  localize_datetime :: "'ts \<Rightarrow> error + datetime"

datatype 'ts dt_arg = DtNone | DtTuple "int list" | DtNum 'ts | DtDateTime 'ts

subsection \<open>ZipInfo and the Wheel object\<close>

record zipinfo =
  filename :: string
  zi_date_time :: date_time
  create_system :: int
  external_attr :: int
  CRC :: "int option"
  compressed :: bool

type_synonym bytes = "nat list"

text \<open>
  The state of a \<open>Wheel\<close>: the private attributes of the class, the entries written to
  the zip so far (\<open>mkdir\<close> writes an entry with no content, \<open>open(zinfo, 'w')\<close> one with
  content), and whether the file is still open (\<open>self.fp\<close>). The dictionaries are
  insertion-ordered, hence association lists.
\<close>

record 'ts wheel =
  strict_timestamps :: bool
  tz :: "'ts tzinfo"
  min_dt :: datetime
  max_dt :: datetime
  dist_info_prefix :: "string list option"
  dist_info :: "(string list \<times> (bytes \<times> bytes) option) list"
  record_map :: "(string list \<times> (bytes \<times> nat)) list"
  modified :: date_time
  entries :: "(zipinfo \<times> bytes option) list"
  fp_open :: bool

definition S_IFDIR :: int where "S_IFDIR = oct [0,4,0,0,0,0]"
definition S_IFREG :: int where "S_IFREG = oct [1,0,0,0,0,0]"

definition S_IFMT :: "int \<Rightarrow> int" where
  "S_IFMT m = m AND oct [1,7,0,0,0,0]"

definition S_ISDIR :: "int \<Rightarrow> bool" where
  "S_ISDIR m = (S_IFMT m = S_IFDIR)"

text \<open>Lines 153-158: the entry type.\<close>

definition resolve_typ :: "path_like \<Rightarrow> int option \<Rightarrow> error + int" where
  "resolve_typ path typ =
     (let t = S_IFMT (case typ of None \<Rightarrow> 0 | Some v \<Rightarrow> v) in
      if \<not> S_ISDIR t \<and> (case path of Str s \<Rightarrow> endswith s ''/'' | _ \<Rightarrow> False)
      then (if t \<noteq> 0 then Inl AssertionError else Inr S_IFDIR)
      else if t = 0 then Inr S_IFREG
      else Inr t)"

text \<open>Lines 163-176: conversion into local time and clamping.\<close>

definition to_local :: "'ts wheel \<Rightarrow> 'ts dt_arg \<Rightarrow> error + datetime" where
  "to_local w dt =
     (case dt of
        DtNum x \<Rightarrow> localize_timestamp (tz w) x
      | DtDateTime d \<Rightarrow> localize_datetime (tz w) d
      | DtNone \<Rightarrow> localize_naive (tz w) [1980, 1, 1]
      | DtTuple t \<Rightarrow> localize_naive (tz w) t)"

definition clamp_dt :: "'ts wheel \<Rightarrow> datetime \<Rightarrow> error + datetime" where
  "clamp_dt w dt =
     (if dt < min_dt w then
        (if strict_timestamps w then Inl (ValueError_before (min_dt w)) else Inr (min_dt w))
      else if dt > max_dt w then
        (if strict_timestamps w then Inl (ValueError_after (max_dt w)) else Inr (max_dt w))
      else Inr dt)"

text \<open>Lines 178-188: mode and DOS attributes.\<close>

definition unix_mode :: "int \<Rightarrow> bool \<Rightarrow> bool \<Rightarrow> bool \<Rightarrow> int" where
  "unix_mode typ traversable executable writable =
     (let mode = (if S_ISDIR typ then oct [2,7,7,5] else oct [7,7,5]);
          mode = (if \<not> (if S_ISDIR typ then traversable else executable)
                  then mode AND NOT (oct [1,1,1]) else mode);
          mode = (if \<not> writable then mode AND NOT (oct [2,2,2]) else mode)
      in mode)"

definition dos_attr :: "int \<Rightarrow> bool \<Rightarrow> string list \<Rightarrow> int" where
  "dos_attr typ writable ps =
     (let a = (if S_ISDIR typ then 16 else 0);
          a = (if \<not> writable then a OR 1 else a);
          a = (if list_ex (\<lambda>part. startswith part ''.'') ps then a OR 2 else a)
      in a)"

text \<open>
  Lines 143-203. \<open>ZipInfo(...)\<close> itself refuses a year before 1980. The last
  \<open>match\<close> raises for any type but directory and regular file (\<open>NotImplemented\<close> is
  not callable, so the \<open>raise\<close> line fails with a \<open>TypeError\<close>).
\<close>

definition make_zipinfo ::
  "'ts wheel \<Rightarrow> path_like \<Rightarrow> int option \<Rightarrow> 'ts dt_arg \<Rightarrow> bool \<Rightarrow> bool \<Rightarrow> bool \<Rightarrow> error + zipinfo"
where
  "make_zipinfo w path typ dt traversable executable writable =
     (case resolve_typ path typ of Inl e \<Rightarrow> Inl e | Inr t \<Rightarrow>
       (let ps = to_parts path in
        if is_absolute ps then Inl AssertionError else
        (case to_local w dt of Inl e \<Rightarrow> Inl e | Inr l \<Rightarrow>
          (case clamp_dt w l of Inl e \<Rightarrow> Inl e | Inr c \<Rightarrow>
            (let mode = unix_mode t traversable executable writable;
                 dos = dos_attr t writable ps;
                 name = as_posix ps
             in if fst (timetuple6 c) < 1980 then Inl ValueError_zip_before_1980
                else
                  (let z = \<lparr> filename = (if S_ISDIR t then name @ ''/'' else name),
                            zi_date_time = timetuple6 c,
                            create_system = 3,
                            external_attr = push_bit 16 (t OR mode) OR dos,
                            CRC = None,
                            compressed = False \<rparr>
                   in if t = S_IFDIR then Inr (z\<lparr>CRC := Some 0\<rparr>)
                      else if t = S_IFREG then Inr (z\<lparr>compressed := True\<rparr>)
                      else Inl NotImplemented_not_callable))))))"

text \<open>
  Lines 117-141, \<open>Wheel.__init__\<close>: \<open>strict_timestamps=False\<close> is passed to
  \<open>ZipFile\<close>; the two bounds are naive datetimes converted with the timezone object.
\<close>

definition Wheel_init :: "'ts tzinfo \<Rightarrow> error + 'ts wheel" where
  "Wheel_init tzv =
     (case localize_naive tzv [1980, 1, 1] of Inl e \<Rightarrow> Inl e | Inr mn \<Rightarrow>
       (case localize_naive tzv [2107, 12, 31, 23, 59, 59, 999999] of Inl e \<Rightarrow> Inl e
        | Inr mx \<Rightarrow>
            Inr \<lparr> strict_timestamps = False, tz = tzv, min_dt = mn, max_dt = mx,
                  dist_info_prefix = None, dist_info = [], record_map = [],
                  modified = (1980, 1, 1, 0, 0, 0), entries = [], fp_open = True \<rparr>))"

subsection \<open>The permission encoding in the words of the specification\<close>

definition spec_unix_mode :: "bool \<Rightarrow> bool \<Rightarrow> bool \<Rightarrow> bool \<Rightarrow> int" where
  "spec_unix_mode is_dir traversable executable writable =
     (if is_dir then
        (if traversable then (if writable then oct [2,7,7,5] else oct [2,5,5,5])
         else (if writable then oct [2,6,6,4] else oct [2,4,4,4]))
      else
        (if executable then (if writable then oct [7,7,5] else oct [5,5,5])
         else (if writable then oct [6,6,4] else oct [4,4,4])))"

definition spec_dos_attr :: "bool \<Rightarrow> bool \<Rightarrow> string list \<Rightarrow> int" where
  "spec_dos_attr is_dir writable ps =
     (if is_dir then 16 else 0) + (if writable then 0 else 1)
     + (if list_ex (\<lambda>p. p \<noteq> [] \<and> hd p = CHR ''.'') ps then 2 else 0)"

subsection \<open>A timezone for examples\<close>

text \<open>
  \<open>DateTime(*t)\<close> needs year, month and day; hour to microsecond default to 0. In the
  example timezone an instant is given by its local calendar fields, so every conversion
  returns the fields as they are.
\<close>

fun naive_fields :: "int list \<Rightarrow> error + datetime" where
  "naive_fields [y, mo, d] = Inr (y, mo, d, 0, 0, 0, 0)"
| "naive_fields [y, mo, d, h] = Inr (y, mo, d, h, 0, 0, 0)"
| "naive_fields [y, mo, d, h, mi] = Inr (y, mo, d, h, mi, 0, 0)"
| "naive_fields [y, mo, d, h, mi, s] = Inr (y, mo, d, h, mi, s, 0)"
| "naive_fields [y, mo, d, h, mi, s, us] = Inr (y, mo, d, h, mi, s, us)"
| "naive_fields _ = Inl (LibraryError ''TypeError'')"

definition fields_tz :: "datetime tzinfo" where
  "fields_tz = \<lparr> localize_timestamp = Inr, localize_naive = naive_fields,
                 localize_datetime = Inr \<rparr>"

definition fields_wheel :: "datetime wheel" where
  "fields_wheel =
     \<lparr> strict_timestamps = False, tz = fields_tz, min_dt = (1980, 1, 1, 0, 0, 0, 0),
       max_dt = (2107, 12, 31, 23, 59, 59, 999999),
       dist_info_prefix = None, dist_info = [], record_map = [],
       modified = (1980, 1, 1, 0, 0, 0), entries = [], fp_open = True \<rparr>"

subsection \<open>The source tree\<close>

text \<open>
  What \<open>add_tree\<close> reads from the filesystem. A directory is the list of its entries in
  the order \<open>iterdir()\<close> yields them. A regular file carries what \<open>lstat\<close> and
  \<open>os.access\<close> report (\<open>st_mode\<close>, \<open>st_mtime\<close>, X_OK, W_OK) and its bytes; a
  directory carries its own on-disk modification time, which the code never reads.
  \<open>Special\<close> is an entry that is neither link, directory nor regular file.
  An entry's name has no slash and is not \<open>.\<close>, so \<open>rel / path.name\<close> is
  \<open>rel @ [name]\<close>.
\<close>

datatype 'ts node =
    Symlink string
  | Directory string 'ts "'ts node list"
  | RegularFile string int 'ts bool bool bytes
  | Special string

fun node_name :: "'ts node \<Rightarrow> string" where
  "node_name (Symlink n) = n"
| "node_name (Directory n _ _) = n"
| "node_name (RegularFile n _ _ _ _ _) = n"
| "node_name (Special n) = n"

text \<open>The number of nodes of a tree, the measure of the traversal.\<close>

fun weight :: "'ts node \<Rightarrow> nat" where
  "weight (Directory n m ch) = Suc (sum_list (map weight ch))"
| "weight _ = 1"

text \<open>
  \<open>str.casefold()\<close>, here on ASCII letters (the library also folds letters beyond ASCII).
  Sort keys are compared as strings, character by character.
\<close>

definition ascii_lower :: "char \<Rightarrow> char" where
  "ascii_lower c =
     (if CHR ''A'' \<le> c \<and> c \<le> CHR ''Z'' then char_of (of_char c + (32::nat)) else c)"

definition casefold :: "string \<Rightarrow> string" where
  "casefold s = map ascii_lower s"


text \<open>
  An element of \<open>out_dirs\<close>: the directory's \<open>ZipInfo\<close> (or its archive path, for a
  metadata directory) and its files, each with the \<open>Path\<close> of the source file (its name
  and the bytes reading it yields) and its \<open>ZipInfo\<close>.
\<close>

type_synonym src_file = "string \<times> bytes"
datatype dir_entry = ZipDir zipinfo | DistInfoDir "string list"
type_synonym out_dirs = "(dir_entry \<times> (src_file \<times> zipinfo) list) list"

definition is_dist_info :: "string list \<Rightarrow> bool" where
  "is_dist_info rel = (case rel of [] \<Rightarrow> False | p # _ \<Rightarrow> endswith p ''.dist-info'')"

text \<open>Lines 224-235: the \<open>ZipInfo\<close> of a regular file.\<close>

definition file_zipinfo ::
  "'ts wheel \<Rightarrow> string list \<Rightarrow> bool \<Rightarrow> string \<Rightarrow> int \<Rightarrow> 'ts \<Rightarrow> bool \<Rightarrow> bool
   \<Rightarrow> error + zipinfo"
where
  "file_zipinfo w rel isd n mode mtime x_ok w_ok =
     (if isd then make_zipinfo w (PurePosixPath (rel @ [n])) (Some S_IFREG) DtNone
                    True True True
      else make_zipinfo w (PurePosixPath (rel @ [n])) (Some mode) (DtNum mtime)
                    True x_ok w_ok)"

text \<open>
  Lines 216-238, the loop over \<open>tree.iterdir()\<close>. The state is \<open>dirs\<close>,
  \<open>files\<close> and \<open>tree_zinfo.date_time\<close>.
\<close>

fun scan ::
  "'ts wheel \<Rightarrow> string list \<Rightarrow> bool \<Rightarrow> 'ts node list
   \<Rightarrow> 'ts node list \<times> (src_file \<times> zipinfo) list \<times> date_time
   \<Rightarrow> error + ('ts node list \<times> (src_file \<times> zipinfo) list \<times> date_time)"
where
  "scan w rel isd [] acc = Inr acc"
| "scan w rel isd (Symlink n # ns) acc = scan w rel isd ns acc"
| "scan w rel isd (Directory n m ch # ns) (dirs, files, dt) =
     (if n \<noteq> ''__pycache__'' then scan w rel isd ns (dirs @ [Directory n m ch], files, dt)
      else scan w rel isd ns (dirs, files, dt))"
| "scan w rel isd (RegularFile n mode mtime x_ok w_ok content # ns) (dirs, files, dt) =
     (case file_zipinfo w rel isd n mode mtime x_ok w_ok of
        Inl e \<Rightarrow> Inl e
      | Inr zinfo \<Rightarrow>
          scan w rel isd ns
            (dirs, files @ [((n, content), zinfo)],
             if \<not> isd \<and> zi_date_time zinfo > dt then zi_date_time zinfo else dt))"
| "scan w rel isd (Special n # ns) acc = scan w rel isd ns acc"

text \<open>
  \<open>out_dirs\<close> holds a reference to \<open>tree_zinfo\<close>, appended at line 241 before the
  subdirectories are visited. The assignment to \<open>tree_zinfo.date_time\<close> at line 247 is
  therefore seen through \<open>out_dirs\<close>: it is an update of the element at the index where
  the directory was appended.
\<close>

definition set_dir_time :: "nat \<Rightarrow> date_time \<Rightarrow> out_dirs \<Rightarrow> out_dirs" where
  "set_dir_time k d out =
     (if k < length out then
        (case out ! k of
           (ZipDir z, fs) \<Rightarrow> out[k := (ZipDir (z\<lparr>zi_date_time := d\<rparr>), fs)]
         | (DistInfoDir r, fs) \<Rightarrow> out)
      else out)"

lemma scan_dirs_weight:
  "scan w rel isd ns (dirs, files, dt) = Inr (dirs', files', dt')
   \<Longrightarrow> sum_list (map weight dirs') \<le> sum_list (map weight dirs) + sum_list (map weight ns)"
proof (induction w rel isd ns "(dirs, files, dt)" arbitrary: dirs files dt rule: scan.induct)
  case (1 w rel isd acc)
  then show ?case by simp
next
  case (2 w rel isd n ns acc)
  then show ?case by simp
next
  case (3 w rel isd n m ch ns dirs files dt)
  then show ?case by (fastforce split: if_splits)
next
  case (4 w rel isd n mode mtime x_ok w_ok content ns dirs files dt)
  then show ?case by (fastforce split: sum.splits)
next
  case (5 w rel isd n ns acc)
  then show ?case by simp
qed

lemma weight_sort_key: "sum_list (map weight (sort_key f xs)) = sum_list (map weight xs)"
proof -
  have "mset (map weight (sort_key f xs)) = mset (map weight xs)" by simp
  then show ?thesis by (metis sum_mset_sum_list)
qed

text \<open>
  Lines 205-249. \<open>visit_dirs\<close> is the loop of lines 244-247 over the sorted
  subdirectories; \<open>k\<close> is the index of this directory in \<open>out_dirs\<close>. Only
  directories are ever in \<open>dirs\<close>.
\<close>

function collect_tree_info ::
  "'ts wheel \<Rightarrow> string list \<Rightarrow> 'ts node list \<Rightarrow> out_dirs \<Rightarrow> error + (date_time \<times> out_dirs)"
and visit_dirs ::
  "'ts wheel \<Rightarrow> string list \<Rightarrow> bool \<Rightarrow> nat \<Rightarrow> date_time \<Rightarrow> 'ts node list \<Rightarrow> out_dirs
   \<Rightarrow> error + (date_time \<times> out_dirs)"
where
  "collect_tree_info w rel tree out_dirs =
     (case make_zipinfo w (PurePosixPath rel) (Some S_IFDIR) DtNone True True True of
        Inl e \<Rightarrow> Inl e
      | Inr tree_zinfo \<Rightarrow>
         (case scan w rel (is_dist_info rel) tree ([], [], zi_date_time tree_zinfo) of
            Inl e \<Rightarrow> Inl e
          | Inr (dirs, files, dt) \<Rightarrow>
              visit_dirs w rel (is_dist_info rel) (length out_dirs) dt
                (sort_key (\<lambda>d. casefold (node_name d)) dirs)
                (out_dirs @
                  [(if \<not> is_dist_info rel then ZipDir (tree_zinfo\<lparr>zi_date_time := dt\<rparr>)
                    else DistInfoDir rel,
                    sort_key (\<lambda>(p, z). casefold (fst p)) files)])))"
| "visit_dirs w rel isd k dt [] out_dirs = Inr (dt, out_dirs)"
| "visit_dirs w rel isd k dt (Directory n m ch # ds) out_dirs =
     (case collect_tree_info w (rel @ [n]) ch out_dirs of
        Inl e \<Rightarrow> Inl e
      | Inr (date_time, out1) \<Rightarrow>
          if \<not> isd \<and> date_time > dt
          then visit_dirs w rel isd k date_time ds (set_dir_time k date_time out1)
          else visit_dirs w rel isd k dt ds out1)"
| "visit_dirs w rel isd k dt (Symlink n # ds) out_dirs = visit_dirs w rel isd k dt ds out_dirs"
| "visit_dirs w rel isd k dt (RegularFile n mode mtime x_ok w_ok content # ds) out_dirs =
     visit_dirs w rel isd k dt ds out_dirs"
| "visit_dirs w rel isd k dt (Special n # ds) out_dirs = visit_dirs w rel isd k dt ds out_dirs"
  by pat_completeness auto
termination
  by (relation "measure (\<lambda>x. case x of
          Inl (w, rel, tree, out) \<Rightarrow> 2 * sum_list (map weight tree) + 1
        | Inr (w, rel, isd, k, dt, ds, out) \<Rightarrow> 2 * sum_list (map weight ds))")
     (auto simp: weight_sort_key dest!: scan_dirs_weight)

declare collect_tree_info.simps [simp del]

subsection \<open>Adding trees and closing\<close>

text \<open>Assignment to an insertion-ordered \<open>dict\<close>: an existing key keeps its place.\<close>

fun dict_set :: "('k \<times> 'v) list \<Rightarrow> 'k \<Rightarrow> 'v \<Rightarrow> ('k \<times> 'v) list" where
  "dict_set [] k v = [(k, v)]"
| "dict_set ((k', v') # kvs) k v =
     (if k' = k then (k, v) # kvs else (k', v') # dict_set kvs k v)"

text \<open>
  Lines 265-277. \<open>dir.filename not in './'\<close> is a substring test. \<open>mkdir\<close> appends an
  entry without content. A file's bytes are copied in chunks of the buffer's size into the
  entry and into the hash; the hash object is modelled by the bytes it has been fed, and
  \<open>zinfo.file_size\<close> is their number. The record's key is
  \<open>PurePosixPath(zinfo.filename)\<close>.
\<close>

fun add_files :: "'ts wheel \<Rightarrow> (src_file \<times> zipinfo) list \<Rightarrow> 'ts wheel" where
  "add_files w [] = w"
| "add_files w (((name, content), zinfo) # files) =
     add_files
       (w\<lparr> entries := entries w @ [(zinfo, Some content)],
           record_map := dict_set (record_map w) (parse_parts (filename zinfo))
                        (content, length content) \<rparr>)
       files"

definition add_dir :: "'ts wheel \<Rightarrow> zipinfo \<Rightarrow> (src_file \<times> zipinfo) list \<Rightarrow> 'ts wheel" where
  "add_dir w dir files =
     add_files
       (if filename dir \<notin> set ['''', ''.'', ''/'', ''./'']
        then w\<lparr>entries := entries w @ [(dir, None)]\<rparr> else w)
       files"

text \<open>\<open>p.relative_to(q)\<close>: the parts of \<open>p\<close> after those of \<open>q\<close>, or a \<open>ValueError\<close>.\<close>

definition relative_to :: "string list \<Rightarrow> string list \<Rightarrow> error + string list" where
  "relative_to p q =
     (if take (length q) p = q then Inr (drop (length q) p)
      else Inl (LibraryError ''ValueError''))"

text \<open>Lines 279-288. The metadata files are kept in memory with their hash.\<close>

fun stage_files ::
  "'ts wheel \<Rightarrow> string list \<Rightarrow> (src_file \<times> zipinfo) list \<Rightarrow> 'ts wheel" where
  "stage_files w rel [] = w"
| "stage_files w rel (((name, content), zinfo) # files) =
     stage_files
       (w\<lparr>dist_info := dict_set (dist_info w) (rel @ [name]) (Some (content, content))\<rparr>)
       rel files"

definition add_dist_info ::
  "'ts wheel \<Rightarrow> string list \<Rightarrow> (src_file \<times> zipinfo) list \<Rightarrow> error + 'ts wheel" where
  "add_dist_info w dir files =
     (let pfx = (case dist_info_prefix w of None \<Rightarrow> take 1 dir | Some p \<Rightarrow> p)
      in case relative_to dir pfx of
           Inl e \<Rightarrow> Inl e
         | Inr rel \<Rightarrow>
             Inr (stage_files
                    (w\<lparr> dist_info_prefix := Some pfx,
                        dist_info := dict_set (dist_info w) rel None \<rparr>)
                    rel files))"

text \<open>Lines 251-263. \<open>root.relative_to(root.root)\<close> drops the root part.\<close>

definition strip_root :: "string list \<Rightarrow> string list" where
  "strip_root ps = (case ps of [] \<Rightarrow> [] | p # rest \<Rightarrow> if startswith p ''/'' then rest else ps)"

fun add_dirs :: "'ts wheel \<Rightarrow> out_dirs \<Rightarrow> error + 'ts wheel" where
  "add_dirs w [] = Inr w"
| "add_dirs w ((ZipDir dir, files) # rest) = add_dirs (add_dir w dir files) rest"
| "add_dirs w ((DistInfoDir dir, files) # rest) =
     (case add_dist_info w dir files of Inl e \<Rightarrow> Inl e | Inr w' \<Rightarrow> add_dirs w' rest)"

definition add_tree :: "'ts wheel \<Rightarrow> path_like \<Rightarrow> 'ts node list \<Rightarrow> error + 'ts wheel" where
  "add_tree w root tree =
     (case collect_tree_info w (strip_root (to_parts root)) tree [] of
        Inl e \<Rightarrow> Inl e
      | Inr (date_time, dirs) \<Rightarrow>
          add_dirs (if date_time > modified w then w\<lparr>modified := date_time\<rparr> else w) dirs)"

subsection \<open>The RECORD file\<close>

text \<open>\<open>str(n)\<close> for a size.\<close>

fun str_nat :: "nat \<Rightarrow> string" where
  "str_nat n =
     (if n < 10 then [''0123456789'' ! n]
      else str_nat (n div 10) @ [''0123456789'' ! (n mod 10)])"

declare str_nat.simps [simp del]






definition list_of_date_time :: "date_time \<Rightarrow> int list" where
  "list_of_date_time t = (case t of (y, mo, d, h, mi, s) \<Rightarrow> [y, mo, d, h, mi, s])"

text \<open>
  Lines 296-306: the staged metadata entries are written with the archive's overall
  timestamp, not executable.
\<close>

fun flush_dist_info ::
  "'ts wheel \<Rightarrow> string list \<Rightarrow> (string list \<times> (bytes \<times> bytes) option) list
   \<Rightarrow> error + 'ts wheel"
where
  "flush_dist_info w pfx [] = Inr w"
| "flush_dist_info w pfx ((rel, file) # rest) =
     (case make_zipinfo w (PurePosixPath (pfx @ rel))
             (Some (if file \<noteq> None then S_IFREG else S_IFDIR))
             (DtTuple (list_of_date_time (modified w))) True False True of
        Inl e \<Rightarrow> Inl e
      | Inr zinfo \<Rightarrow>
          (case file of
             Some (content, hash) \<Rightarrow>
               flush_dist_info
                 (w\<lparr> entries := entries w @ [(zinfo, Some content)],
                     record_map := dict_set (record_map w) (pfx @ rel) (hash, length content) \<rparr>)
                 pfx rest
           | None \<Rightarrow> flush_dist_info (w\<lparr>entries := entries w @ [(zinfo, None)]\<rparr>) pfx rest))"



section \<open>_get_version.py: the version deriver\<close>

subsection \<open>More string operations\<close>

definition is_space :: "char \<Rightarrow> bool" where
  "is_space c = (c \<in> set [CHR '' '', CHR 0x09, CHR 0x0A, CHR 0x0B, CHR 0x0C, CHR 0x0D])"

text \<open>\<open>s.strip()\<close>.\<close>

definition strip :: "string \<Rightarrow> string" where
  "strip s = rev (dropWhile is_space (rev (dropWhile is_space s)))"

text \<open>\<open>s.split()\<close>: the words between runs of whitespace.\<close>

fun split_ws_acc :: "string \<Rightarrow> string \<Rightarrow> string list" where
  "split_ws_acc cur [] = (if cur = [] then [] else [cur])"
| "split_ws_acc cur (c # cs) =
     (if is_space c then (if cur = [] then split_ws_acc [] cs else cur # split_ws_acc [] cs)
      else split_ws_acc (cur @ [c]) cs)"

definition split_ws :: "string \<Rightarrow> string list" where
  "split_ws s = split_ws_acc [] s"

text \<open>
  \<open>s.splitlines()\<close>, for text whose only line boundary is the newline, as git's output
  is: a final newline does not start another line.
\<close>

definition splitlines :: "string \<Rightarrow> string list" where
  "splitlines s =
     (let ls = split_on (CHR 0x0A) s in if last ls = [] then butlast ls else ls)"

text \<open>\<open>s.split(c, maxsplit=n)\<close> and \<open>s.rsplit(c, maxsplit=n)\<close>.\<close>

fun split_max :: "char \<Rightarrow> nat \<Rightarrow> string \<Rightarrow> string list" where
  "split_max c 0 s = [s]"
| "split_max c (Suc n) [] = [[]]"
| "split_max c (Suc n) (x # xs) =
     (if x = c then [] # split_max c n xs
      else (case split_max c (Suc n) xs of [] \<Rightarrow> [[x]] | p # ps \<Rightarrow> (x # p) # ps))"

definition rsplit_max :: "char \<Rightarrow> nat \<Rightarrow> string \<Rightarrow> string list" where
  "rsplit_max c n s = rev (map rev (split_max c n (rev s)))"

text \<open>\<open>s.removesuffix(p)\<close>.\<close>

definition removesuffix :: "string \<Rightarrow> string \<Rightarrow> string" where
  "removesuffix s p = (if endswith s p then take (length s - length p) s else s)"

text \<open>\<open>str(i)\<close> and \<open>int(s)\<close> for decimal digits with an optional sign.\<close>

definition str_int :: "int \<Rightarrow> string" where
  "str_int i = (if i < 0 then CHR ''-'' # str_nat (nat (- i)) else str_nat (nat i))"

definition is_digit :: "char \<Rightarrow> bool" where
  "is_digit c = (CHR ''0'' \<le> c \<and> c \<le> CHR ''9'')"

definition digits_val :: "string \<Rightarrow> nat" where
  "digits_val ds = foldl (\<lambda>a c. 10 * a + (of_char c - 48)) 0 ds"

definition int_of_string :: "string \<Rightarrow> error + int" where
  "int_of_string s =
     (let (sign, ds) = (case s of
                          c # r \<Rightarrow> if c = CHR ''-'' then (- 1 :: int, r)
                                   else if c = CHR ''+'' then (1, r) else (1, s)
                        | [] \<Rightarrow> (1, s))
      in if ds \<noteq> [] \<and> list_all is_digit ds then Inr (sign * int (digits_val ds))
         else Inl (ValueError_int s))"

subsection \<open>The environment: git and the packaging library\<close>

text \<open>
  The three git commands of lines 19-43; each returns its output or fails
  (\<open>CalledProcessError\<close>). \<open>describe n refs\<close> is the describe command run with
  \<open>--candidates=n\<close> and one \<open>--match\<close> for each of \<open>refs\<close>.
\<close>

record git =
  symbolic_ref :: "error + string"
  show_ref :: "error + string"
  describe :: "nat \<Rightarrow> string list \<Rightarrow> error + string"

text \<open>
  A parsed \<open>packaging.version.Version\<close>: \<open>base_version\<close> (epoch and release),
  \<open>pre\<close>, \<open>post\<close>, \<open>dev\<close> and \<open>local\<close>. The library is a parameter:
  \<open>version_pattern s\<close> says whether \<open>re.fullmatch(VERSION_PATTERN, s, re.VERBOSE)\<close>
  matches, \<open>parse_version\<close> is \<open>packaging.version.parse\<close>. \<open>Version('0.0')\<close> has
  the base version \<open>0.0\<close> and nothing else.
\<close>

record version =
  base_version :: string
  pre :: "(string \<times> nat) option"
  post :: "nat option"
  dev :: "nat option"
  local_version :: "string option"

record packaging =
  version_pattern :: "string \<Rightarrow> bool"
  parse_version :: "string \<Rightarrow> error + version"

definition Version_0_0 :: version where
  "Version_0_0 = \<lparr> base_version = ''0.0'', pre = None, post = None, dev = None,
                     local_version = None \<rparr>"

subsection \<open>get_version_from_git\<close>

text \<open>Lines 23-27: the reference names of the \<open>show-ref\<close> lines.\<close>

definition ref_of_line :: "string \<Rightarrow> error + string" where
  "ref_of_line line =
     (case split_ws line of
        _ # r # _ \<Rightarrow>
          (case split_max (CHR ''/'') 2 r of _ # _ # name # _ \<Rightarrow> Inr name | _ \<Rightarrow> Inl IndexError)
      | _ \<Rightarrow> Inl IndexError)"

fun refs_of_lines :: "string list \<Rightarrow> error + string list" where
  "refs_of_lines [] = Inr []"
| "refs_of_lines (l # ls) =
     (case ref_of_line l of Inl e \<Rightarrow> Inl e
      | Inr r \<Rightarrow> (case refs_of_lines ls of Inl e \<Rightarrow> Inl e | Inr rs \<Rightarrow> Inr (r # rs)))"

text \<open>Lines 29-32: \<open>ref.rsplit('/', maxsplit=1)[-1]\<close> is the last path segment.\<close>

definition retained :: "packaging \<Rightarrow> string list \<Rightarrow> string list" where
  "retained lib refs =
     filter (\<lambda>ref. version_pattern lib (last (rsplit_max (CHR ''/'') 1 ref))) refs"

text \<open>
  Lines 45-82, from the stripped describe answer and the branch name. The second
  \<open>case\<close> of the \<open>match\<close> binds \<open>local\<close> anew: the list built before is dropped.
\<close>

definition pre_str :: "version \<Rightarrow> string" where
  "pre_str v = (case pre v of None \<Rightarrow> [] | Some (l, n) \<Rightarrow> l @ str_nat n)"

definition dev_str :: "version \<Rightarrow> string" where
  "dev_str v = (case dev v of None \<Rightarrow> [] | Some n \<Rightarrow> ''.dev'' @ str_nat n)"

definition compose :: "version \<Rightarrow> int \<Rightarrow> bool \<Rightarrow> string list \<Rightarrow> string" where
  "compose v post_n dirty local =
     (let local = (if dirty then local @ [''dirty''] else local) in
      base_version v @ pre_str v
      @ (if post_n \<noteq> 0 \<or> dirty \<or> post v \<noteq> None
         then ''.post'' @ str_int (int (case post v of None \<Rightarrow> 0 | Some p \<Rightarrow> p) + post_n)
         else [])
      @ dev_str v
      @ (if local \<noteq> [] then ''+'' @ join ''.'' local else []))"

definition version_of_describe :: "packaging \<Rightarrow> string \<Rightarrow> string \<Rightarrow> error + string" where
  "version_of_describe lib head described =
     (let dirty = endswith described ''-dirty'';
          pieces = split_on (CHR ''/'') (removesuffix described ''-dirty'');
          local = butlast pieces;
          described = last pieces;
          local = (if local \<noteq> [] \<and> hd local \<in> set [''heads'', ''tags'']
                   then tl local else local);
          local = (if head \<notin> set [''main'', ''master'', ''develop'']
                   then head # local else local)
      in case rsplit_max (CHR ''-'') 2 described of
           [version_str, post_s, commit] \<Rightarrow>
             (case (if version_pattern lib version_str
                    then (case parse_version lib version_str of
                            Inl e \<Rightarrow> Inl e
                          | Inr v \<Rightarrow>
                              Inr (v, (case local_version v of
                                         Some l \<Rightarrow> if l \<noteq> [] then local @ [l] else local
                                       | None \<Rightarrow> local)))
                    else Inr (Version_0_0, local @ [version_str])) of
                Inl e \<Rightarrow> Inl e
              | Inr (v, local) \<Rightarrow>
                  (case int_of_string post_s of
                     Inl e \<Rightarrow> Inl e
                   | Inr post_n \<Rightarrow>
                       Inr (compose v post_n dirty
                              (if post_n \<noteq> 0 \<or> dirty then local @ [commit] else local))))
         | commit # local \<Rightarrow>
             Inr (compose Version_0_0 0 dirty ((CHR ''g'' # commit) # local))
         | [] \<Rightarrow> Inl NotImplementedError)"

text \<open>Lines 17-82.\<close>

definition get_version_from_git :: "packaging \<Rightarrow> git \<Rightarrow> error + string" where
  "get_version_from_git lib g =
     (case symbolic_ref g of Inl e \<Rightarrow> Inl e | Inr head_out \<Rightarrow>
      (case show_ref g of Inl e \<Rightarrow> Inl e | Inr refs_out \<Rightarrow>
       (case refs_of_lines (splitlines refs_out) of Inl e \<Rightarrow> Inl e | Inr refs \<Rightarrow>
        (let refs = retained lib refs in
         case describe g (length refs) refs of Inl e \<Rightarrow> Inl e | Inr describe_out \<Rightarrow>
           version_of_describe lib (strip head_out) (strip describe_out)))))"

section \<open>Auxiliary notions for the properties\<close>

text \<open>
  A tree without its \<open>__pycache__\<close> directories, at every level.
\<close>

definition is_pycache :: "'ts node \<Rightarrow> bool" where
  "is_pycache n = (case n of Directory name _ _ \<Rightarrow> name = ''__pycache__'' | _ \<Rightarrow> False)"

fun prune :: "'ts node \<Rightarrow> 'ts node" where
  "prune (Directory n m ch) = Directory n m (map prune (filter (\<lambda>c. \<not> is_pycache c) ch))"
| "prune (Symlink n) = Symlink n"
| "prune (RegularFile n mode mtime x_ok w_ok content) = RegularFile n mode mtime x_ok w_ok content"
| "prune (Special n) = Special n"

definition prune_tree :: "'ts node list \<Rightarrow> 'ts node list" where
  "prune_tree tree = map prune (filter (\<lambda>c. \<not> is_pycache c) tree)"




inductive built :: "'ts wheel \<Rightarrow> bool" where
  init: "Wheel_init tzv = Inr w \<Longrightarrow> built w"
| tree: "built w \<Longrightarrow> add_tree w root tree = Inr w' \<Longrightarrow> built w'"


definition staged_ok :: "(string list \<times> (bytes \<times> bytes) option) list \<Rightarrow> bool" where
  "staged_ok d = (\<forall>rel content h. (rel, Some (content, h)) \<in> set d \<longrightarrow> h = content)"




text \<open>
  The version deriver. \<open>is_hex\<close>: an abbreviated commit id. \<open>described_as\<close>: the
  describe answer \<open><bucket>/<name>-<count>-g<hash>\<close>, with \<open>-dirty\<close> appended for
  a dirty tree. \<open>normalized\<close>: \<open>str(v)\<close> of the packaging library, the normalized
  version. \<open>demo_packaging\<close> and \<open>demo_git\<close>: the library's answers for the tag
  \<open>v1.2.3\<close>, and a repository with the branch \<open>main\<close> and that tag.
\<close>

definition demo_packaging :: packaging where
  "demo_packaging =
     \<lparr> version_pattern = (\<lambda>s. s = ''v1.2.3''),
       parse_version = (\<lambda>s. if s = ''v1.2.3''
                             then Inr \<lparr> base_version = ''1.2.3'', pre = None, post = None,
                                        dev = None, local_version = None \<rparr>
                             else Inl (LibraryError ''InvalidVersion'')) \<rparr>"

definition demo_git :: "string \<Rightarrow> string \<Rightarrow> git" where
  "demo_git head described =
     \<lparr> symbolic_ref = Inr (head @ [CHR 0x0A]),
       show_ref = Inr (''1111111111111111111111111111111111111111 refs/heads/main''
                       @ [CHR 0x0A]
                       @ ''2222222222222222222222222222222222222222 refs/tags/v1.2.3''
                       @ [CHR 0x0A]),
       describe = (\<lambda>n refs. Inr (described @ [CHR 0x0A])) \<rparr>"

definition is_hex :: "string \<Rightarrow> bool" where
  "is_hex s = (s \<noteq> [] \<and> list_all (\<lambda>c. c \<in> set ''0123456789abcdef'') s)"


definition described_as :: "string \<Rightarrow> string \<Rightarrow> string \<Rightarrow> string \<Rightarrow> bool \<Rightarrow> string" where
  "described_as bucket name cnt hash dirty =
     bucket @ ''/'' @ name @ ''-'' @ cnt @ ''-g'' @ hash @ (if dirty then ''-dirty'' else [])"


text \<open>
  The traversal as a relation. \<open>walk w rel tree dt es\<close>: visiting the directory with
  entries \<open>tree\<close> at archive path \<open>rel\<close> appends the elements \<open>es\<close> to
  \<open>out_dirs\<close> and returns \<open>dt\<close>. It is shown below to hold exactly when
  \<open>collect_tree_info\<close> returns that result. \<open>file_entry\<close> is the element of
  \<open>files\<close> for a regular file, \<open>kept_dir\<close> a directory that is entered.
\<close>

definition is_regular :: "'ts node \<Rightarrow> bool" where
  "is_regular n = (case n of RegularFile _ _ _ _ _ _ \<Rightarrow> True | _ \<Rightarrow> False)"

definition is_directory :: "'ts node \<Rightarrow> bool" where
  "is_directory n = (case n of Directory _ _ _ \<Rightarrow> True | _ \<Rightarrow> False)"

definition kept_dir :: "'ts node \<Rightarrow> bool" where
  "kept_dir n = (case n of Directory name _ _ \<Rightarrow> name \<noteq> ''__pycache__'' | _ \<Rightarrow> False)"

fun children :: "'ts node \<Rightarrow> 'ts node list" where
  "children (Directory n m ch) = ch"
| "children _ = []"

definition file_entry ::
  "'ts wheel \<Rightarrow> string list \<Rightarrow> bool \<Rightarrow> 'ts node \<Rightarrow> error + (src_file \<times> zipinfo)" where
  "file_entry w rel isd f =
     (case f of
        RegularFile n mode mtime x_ok w_ok content \<Rightarrow>
          (case file_zipinfo w rel isd n mode mtime x_ok w_ok of
             Inl e \<Rightarrow> Inl e | Inr z \<Rightarrow> Inr ((n, content), z))
      | _ \<Rightarrow> Inl AssertionError)"

inductive walk ::
  "'ts wheel \<Rightarrow> string list \<Rightarrow> 'ts node list \<Rightarrow> date_time \<Rightarrow> out_dirs \<Rightarrow> bool"
  for w :: "'ts wheel"
where
  walk:
  "\<lbrakk> make_zipinfo w (PurePosixPath rel) (Some S_IFDIR) DtNone True True True = Inr tree_zinfo;
     list_all2 (\<lambda>f e. file_entry w rel (is_dist_info rel) f = Inr e)
       (filter is_regular tree) files;
     list_all2 (\<lambda>d r. walk w (rel @ [node_name d]) (children d) (fst r) (snd r))
       (sort_key (\<lambda>d. casefold (node_name d)) (filter kept_dir tree)) rs;
     dt = (if is_dist_info rel then zi_date_time tree_zinfo
           else fold max (map fst rs)
                  (fold max (map (\<lambda>e. zi_date_time (snd e)) files)
                     (zi_date_time tree_zinfo))) \<rbrakk>
   \<Longrightarrow> walk w rel tree dt
         ((if \<not> is_dist_info rel then ZipDir (tree_zinfo\<lparr>zi_date_time := dt\<rparr>)
           else DistInfoDir rel,
           sort_key (\<lambda>(p, z). casefold (fst p)) files)
          # concat (map snd rs))"

text \<open>What the loop over the subdirectories returns, given what each visit returns.\<close>

definition visited ::
  "bool \<Rightarrow> nat \<Rightarrow> date_time \<Rightarrow> (date_time \<times> out_dirs) list \<Rightarrow> out_dirs
   \<Rightarrow> date_time \<times> out_dirs" where
  "visited isd k dt rs out =
     (let dt' = (if isd then dt else fold max (map fst rs) dt) in
      (dt', (if dt < dt' then set_dir_time k dt' out else out) @ concat (map snd rs)))"

text \<open>
  The \<open>ZipInfo\<close> of every file below a directory that is not a metadata directory:
  its own regular files and those of the directories entered from it, recursively.
  \<open>reached rel tree rel' tree'\<close>: the directory with entries \<open>tree'\<close> at archive
  path \<open>rel'\<close> is visited when \<open>tree\<close> is walked at \<open>rel\<close>.
\<close>

fun node_files :: "'ts wheel \<Rightarrow> string list \<Rightarrow> 'ts node \<Rightarrow> (error + zipinfo) list" where
  "node_files w rel (RegularFile n mode mtime x_ok w_ok content) =
     [file_zipinfo w rel False n mode mtime x_ok w_ok]"
| "node_files w rel (Directory n m ch) =
     (if n = ''__pycache__'' then [] else concat (map (node_files w (rel @ [n])) ch))"
| "node_files w rel (Symlink n) = []"
| "node_files w rel (Special n) = []"

definition descendant_files ::
  "'ts wheel \<Rightarrow> string list \<Rightarrow> 'ts node list \<Rightarrow> (error + zipinfo) list" where
  "descendant_files w rel tree = concat (map (node_files w rel) tree)"

inductive reached ::
  "string list \<Rightarrow> 'ts node list \<Rightarrow> string list \<Rightarrow> 'ts node list \<Rightarrow> bool"
  for rel :: "string list" and tree :: "'ts node list"
where
  top: "reached rel tree rel tree"
| sub: "reached rel tree rel' tree' \<Longrightarrow> Directory n m ch \<in> set tree'
        \<Longrightarrow> n \<noteq> ''__pycache__'' \<Longrightarrow> reached rel tree (rel' @ [n]) ch"

text \<open>The files of the entries of \<open>out_dirs\<close>.\<close>

definition entry_files :: "out_dirs \<Rightarrow> (src_file \<times> zipinfo) set" where
  "entry_files es = {e. \<exists>z fs. (ZipDir z, fs) \<in> set es \<and> e \<in> set fs}"

text \<open>
  \<open>is_max_of d0 T dt\<close>: \<open>dt\<close> is the greatest of \<open>d0\<close> and the elements of
  \<open>T\<close>. \<open>relaxed\<close>: the wheel is in relaxed mode and its lower bound is the
  converted epoch, as \<open>Wheel.__init__\<close> leaves it.
\<close>

definition is_max_of :: "date_time \<Rightarrow> date_time set \<Rightarrow> date_time \<Rightarrow> bool" where
  "is_max_of d0 T dt = (dt \<in> insert d0 T \<and> (\<forall>t\<in>insert d0 T. t \<le> dt))"

definition relaxed :: "'ts wheel \<Rightarrow> bool" where
  "relaxed w = (\<not> strict_timestamps w \<and> localize_naive (tz w) [1980, 1, 1] = Inr (min_dt w))"

text \<open>
  A directory \<open>a\<close> holding \<open>x\<close> (2020) and \<open>sub/y\<close> (2021); both directories
  were themselves modified in 2030.
\<close>

definition demo_sub :: "datetime node list" where
  "demo_sub =
     [RegularFile ''x'' 33188 (2020, 1, 1, 0, 0, 0, 0) False True [1],
      Directory ''sub'' (2030, 1, 1, 0, 0, 0, 0)
        [RegularFile ''y'' 33188 (2021, 1, 1, 0, 0, 0, 0) False True [2]]]"

definition demo_dirs :: "datetime node list" where
  "demo_dirs = [Directory ''a'' (2030, 1, 1, 0, 0, 0, 0) demo_sub]"
section \<open>Properties of \<open>make_zipinfo\<close>\<close>

lemma S_ISDIR_S_IFDIR: "S_ISDIR S_IFDIR"
  by (simp add: S_ISDIR_def S_IFMT_def S_IFDIR_def oct_def)

lemma S_ISDIR_S_IFREG: "\<not> S_ISDIR S_IFREG"
  by (simp add: S_ISDIR_def S_IFMT_def S_IFDIR_def S_IFREG_def oct_def)

lemma S_IFREG_neq_S_IFDIR: "S_IFREG \<noteq> S_IFDIR"
  by (simp add: S_IFDIR_def S_IFREG_def oct_def)

lemma unix_mode_dir: "unix_mode S_IFDIR tr ex wr = spec_unix_mode True tr ex wr"
  by (simp add: unix_mode_def spec_unix_mode_def S_ISDIR_S_IFDIR) (simp add: oct_def)

lemma unix_mode_reg: "unix_mode S_IFREG tr ex wr = spec_unix_mode False tr ex wr"
  by (simp add: unix_mode_def spec_unix_mode_def S_ISDIR_S_IFREG) (simp add: oct_def)

lemma startswith_dot: "startswith p ''.'' \<longleftrightarrow> p \<noteq> [] \<and> hd p = CHR ''.''"
  by (cases p) (simp_all add: startswith_def)

lemma dos_attr_dir: "dos_attr S_IFDIR wr ps = spec_dos_attr True wr ps"
  by (simp add: dos_attr_def spec_dos_attr_def S_ISDIR_S_IFDIR startswith_dot Let_def)

lemma dos_attr_reg: "dos_attr S_IFREG wr ps = spec_dos_attr False wr ps"
  by (simp add: dos_attr_def spec_dos_attr_def S_ISDIR_S_IFREG startswith_dot Let_def)

lemma spec_dos_attr_range: "0 \<le> spec_dos_attr d wr ps \<and> spec_dos_attr d wr ps < 256"
  by (simp add: spec_dos_attr_def)

lemma high_of_pack:
  assumes "0 \<le> d" "d < 256"
  shows "drop_bit 16 (push_bit 16 (x::int) OR d) = x"
proof -
  have "drop_bit 16 d = 0" using assms by (simp add: drop_bit_eq_div)
  then show ?thesis by (simp add: drop_bit_or drop_bit_push_bit)
qed

lemma low_of_pack:
  assumes "0 \<le> d" "d < 256"
  shows "(push_bit 16 (x::int) OR d) AND 255 = d"
proof -
  have m: "(255::int) = mask 8" by (simp add: mask_eq_exp_minus_1)
  have "take_bit 8 d = d" using assms by (simp add: take_bit_int_eq_self)
  then show ?thesis
    unfolding m by (simp add: flip: take_bit_eq_mask) (simp add: take_bit_push_bit)
qed

lemma make_zipinfo_Inr:
  assumes "make_zipinfo w path typ dt tr ex wr = Inr z"
  obtains t l c where "resolve_typ path typ = Inr t" "t = S_IFDIR \<or> t = S_IFREG"
    "\<not> is_absolute (to_parts path)" "to_local w dt = Inr l" "clamp_dt w l = Inr c"
    "zi_date_time z = timetuple6 c"
    "external_attr z = push_bit 16 (t OR unix_mode t tr ex wr) OR dos_attr t wr (to_parts path)"
    "filename z = (if t = S_IFDIR then as_posix (to_parts path) @ ''/''
                   else as_posix (to_parts path))"
  using assms unfolding make_zipinfo_def
  by (auto simp: Let_def S_ISDIR_S_IFDIR S_ISDIR_S_IFREG split: sum.splits if_splits)

text \<open>
  C8. Whenever \<open>make_zipinfo\<close> returns an entry, the entry is a directory or a regular
  file; the high 16 bits of its external attributes are the type or-ed with the Unix mode,
  the low byte is the DOS attribute byte; the mode is 0775 for an executable file and 0664
  otherwise, 2775 for a directory minus the execute bits when not traversable, in each
  case minus the write bits when not writable; the DOS byte has bit 0x10 exactly for
  directories, bit 0x1 exactly when not writable and bit 0x2 exactly when some component
  of the archive path begins with a dot.
\<close>

theorem make_zipinfo_permissions:
  assumes "make_zipinfo w path typ dt tr ex wr = Inr z"
  shows "\<exists>t. resolve_typ path typ = Inr t \<and> (t = S_IFDIR \<or> t = S_IFREG)
           \<and> external_attr z
               = push_bit 16 (t OR spec_unix_mode (t = S_IFDIR) tr ex wr)
                 OR spec_dos_attr (t = S_IFDIR) wr (to_parts path)
           \<and> drop_bit 16 (external_attr z) = (t OR spec_unix_mode (t = S_IFDIR) tr ex wr)
           \<and> external_attr z AND 255 = spec_dos_attr (t = S_IFDIR) wr (to_parts path)"
proof -
  from assms obtain t where t: "resolve_typ path typ = Inr t" "t = S_IFDIR \<or> t = S_IFREG"
    and ext: "external_attr z
                = push_bit 16 (t OR unix_mode t tr ex wr) OR dos_attr t wr (to_parts path)"
    by (rule make_zipinfo_Inr)
  have m: "unix_mode t tr ex wr = spec_unix_mode (t = S_IFDIR) tr ex wr"
    using t(2) by (auto simp: unix_mode_dir unix_mode_reg S_IFREG_neq_S_IFDIR)
  have d: "dos_attr t wr (to_parts path) = spec_dos_attr (t = S_IFDIR) wr (to_parts path)"
    using t(2) by (auto simp: dos_attr_dir dos_attr_reg S_IFREG_neq_S_IFDIR)
  note r = spec_dos_attr_range [of "t = S_IFDIR" wr "to_parts path"]
  have e: "external_attr z
             = push_bit 16 (t OR spec_unix_mode (t = S_IFDIR) tr ex wr)
               OR spec_dos_attr (t = S_IFDIR) wr (to_parts path)"
    using ext by (simp only: m d)
  have h: "drop_bit 16 (external_attr z) = (t OR spec_unix_mode (t = S_IFDIR) tr ex wr)"
    unfolding e using r by (intro high_of_pack) simp_all
  have l: "external_attr z AND 255 = spec_dos_attr (t = S_IFDIR) wr (to_parts path)"
    unfolding e using r by (intro low_of_pack) simp_all
  from t e h l show ?thesis by blast
qed

lemma fields_wheel_init: "Wheel_init fields_tz = Inr fields_wheel"
  by (simp add: Wheel_init_def fields_tz_def fields_wheel_def)

lemma make_zipinfo_secret:
  "\<exists>z. make_zipinfo fields_wheel (PurePosixPath [''pkg'', ''.secret'']) (Some S_IFREG)
          DtNone True False True = Inr z"
  by (simp add: make_zipinfo_def resolve_typ_def S_IFMT_def S_IFREG_def S_IFDIR_def S_ISDIR_def
        is_absolute_def startswith_def to_local_def fields_wheel_def fields_tz_def clamp_dt_def
        unix_mode_def dos_attr_def as_posix_def oct_def Let_def)

text \<open>The file \<open>pkg/.secret\<close>, not executable: hidden bit only, mode 0664.\<close>

theorem make_zipinfo_permissions_witness:
  "\<exists>z. make_zipinfo fields_wheel (PurePosixPath [''pkg'', ''.secret'']) (Some S_IFREG)
          DtNone True False True = Inr z
       \<and> external_attr z AND 255 = 2
       \<and> drop_bit 16 (external_attr z) = (S_IFREG OR oct [6,6,4])"
proof -
  from make_zipinfo_secret obtain z where
    ev: "make_zipinfo fields_wheel (PurePosixPath [''pkg'', ''.secret'']) (Some S_IFREG)
          DtNone True False True = Inr z" ..
  have r: "resolve_typ (PurePosixPath [''pkg'', ''.secret'']) (Some S_IFREG) = Inr S_IFREG"
    by (simp add: resolve_typ_def S_IFMT_def S_IFREG_def S_IFDIR_def S_ISDIR_def oct_def)
  from make_zipinfo_permissions [OF ev] obtain t where
    t: "resolve_typ (PurePosixPath [''pkg'', ''.secret'']) (Some S_IFREG) = Inr t"
    and h: "drop_bit 16 (external_attr z) = (t OR spec_unix_mode (t = S_IFDIR) True False True)"
    and l: "external_attr z AND 255
              = spec_dos_attr (t = S_IFDIR) True (to_parts (PurePosixPath [''pkg'', ''.secret'']))"
    by blast
  from r t have "t = S_IFREG" by simp
  with h l have "external_attr z AND 255 = 2
      \<and> drop_bit 16 (external_attr z) = (S_IFREG OR oct [6,6,4])"
    by (simp add: spec_dos_attr_def spec_unix_mode_def S_IFREG_neq_S_IFDIR)
  with ev show ?thesis by blast
qed

lemma timetuple6_mono: "a \<le> b \<Longrightarrow> timetuple6 a \<le> timetuple6 b"
  by (cases a, cases b) (auto simp: less_eq_prod_def less_prod_def split: if_splits)

lemma make_zipinfo_ok:
  assumes "resolve_typ path typ = Inr t" "t = S_IFDIR \<or> t = S_IFREG"
    "\<not> is_absolute (to_parts path)" "to_local w dt = Inr l" "clamp_dt w l = Inr c"
    "1980 \<le> fst (timetuple6 c)"
  shows "\<exists>z. make_zipinfo w path typ dt tr ex wr = Inr z \<and> zi_date_time z = timetuple6 c"
  using assms unfolding make_zipinfo_def
  by (auto simp: Let_def)

lemma make_zipinfo_clamp_error:
  assumes "resolve_typ path typ = Inr t" 
    "\<not> is_absolute (to_parts path)" "to_local w dt = Inr l" "clamp_dt w l = Inl e"
  shows "make_zipinfo w path typ dt tr ex wr = Inl e"
  using assms unfolding make_zipinfo_def
  by (auto simp: Let_def)

text \<open>
  C3. A wheel as \<open>Wheel.__init__\<close> builds it is in relaxed mode. When the timezone
  object maps the two naive bounds to themselves, a timestamp whose local calendar time
  \<open>l\<close> is below 1980-01-01T00:00:00 is archived as exactly (1980, 1, 1, 0, 0, 0), one
  above 2107-12-31T23:59:59.999999 as (2107, 12, 31, 23, 59, 59), and any other as its own
  local fields; with \<open>_strict_timestamps\<close> set the same call raises a
  \<open>ValueError\<close> carrying the violated bound.
\<close>

theorem make_zipinfo_clamps:
  assumes init: "Wheel_init tzv = Inr w"
    and lo: "localize_naive tzv [1980, 1, 1] = Inr (1980, 1, 1, 0, 0, 0, 0)"
    and hi: "localize_naive tzv [2107, 12, 31, 23, 59, 59, 999999]
               = Inr (2107, 12, 31, 23, 59, 59, 999999)"
    and ty: "resolve_typ path typ = Inr t" "t = S_IFDIR \<or> t = S_IFREG"
    and rel: "\<not> is_absolute (to_parts path)"
    and loc: "to_local w dt = Inr l"
  shows "\<not> strict_timestamps w
    \<and> (\<exists>z. make_zipinfo w path typ dt tr ex wr = Inr z
          \<and> zi_date_time z =
              (if l < (1980, 1, 1, 0, 0, 0, 0) then (1980, 1, 1, 0, 0, 0)
               else if l > (2107, 12, 31, 23, 59, 59, 999999) then (2107, 12, 31, 23, 59, 59)
               else timetuple6 l))
    \<and> make_zipinfo (w\<lparr>strict_timestamps := True\<rparr>) path typ dt tr ex wr =
        (if l < (1980, 1, 1, 0, 0, 0, 0) then Inl (ValueError_before (1980, 1, 1, 0, 0, 0, 0))
         else if l > (2107, 12, 31, 23, 59, 59, 999999)
           then Inl (ValueError_after (2107, 12, 31, 23, 59, 59, 999999))
         else make_zipinfo w path typ dt tr ex wr)"
proof -
  from init lo hi have w: "strict_timestamps w = False" "min_dt w = (1980, 1, 1, 0, 0, 0, 0)"
    "max_dt w = (2107, 12, 31, 23, 59, 59, 999999)" "tz w = tzv"
    by (auto simp: Wheel_init_def)
  let ?w' = "w\<lparr>strict_timestamps := True\<rparr>"
  have loc': "to_local ?w' dt = Inr l" using loc by (cases dt) (simp_all add: to_local_def)
  let ?c = "if l < (1980, 1, 1, 0, 0, 0, 0) then (1980, 1, 1, 0, 0, 0, 0)
            else if l > (2107, 12, 31, 23, 59, 59, 999999) then (2107, 12, 31, 23, 59, 59, 999999)
            else l"
  have c: "clamp_dt w l = Inr ?c" by (simp add: clamp_dt_def w)
  have "(1980, 1, 1, 0, 0, 0, 0) \<le> ?c" by (auto simp: less_eq_prod_def less_prod_def)
  from timetuple6_mono [OF this] have y: "1980 \<le> fst (timetuple6 ?c)"
    by (auto simp: less_eq_prod_def less_prod_def split: if_splits)
  from make_zipinfo_ok [OF ty rel loc c y, of tr ex wr]
  have relaxed: "\<exists>z. make_zipinfo w path typ dt tr ex wr = Inr z
          \<and> zi_date_time z =
              (if l < (1980, 1, 1, 0, 0, 0, 0) then (1980, 1, 1, 0, 0, 0)
               else if l > (2107, 12, 31, 23, 59, 59, 999999) then (2107, 12, 31, 23, 59, 59)
               else timetuple6 l)"
    by (auto split: if_splits)
  have strict: "make_zipinfo ?w' path typ dt tr ex wr =
        (if l < (1980, 1, 1, 0, 0, 0, 0) then Inl (ValueError_before (1980, 1, 1, 0, 0, 0, 0))
         else if l > (2107, 12, 31, 23, 59, 59, 999999)
           then Inl (ValueError_after (2107, 12, 31, 23, 59, 59, 999999))
         else make_zipinfo w path typ dt tr ex wr)"
  proof (cases "l < (1980, 1, 1, 0, 0, 0, 0) \<or> l > (2107, 12, 31, 23, 59, 59, 999999)")
    case True
    then have "clamp_dt ?w' l = (if l < (1980, 1, 1, 0, 0, 0, 0) then Inl (ValueError_before (1980, 1, 1, 0, 0, 0, 0))
         else Inl (ValueError_after (2107, 12, 31, 23, 59, 59, 999999)))"
      by (auto simp: clamp_dt_def w)
    with True show ?thesis
      using make_zipinfo_clamp_error [OF ty(1) rel loc', of _ tr ex wr] by (auto split: if_splits)
  next
    case False
    then have "clamp_dt ?w' l = clamp_dt w l" by (simp add: clamp_dt_def w)
    with False show ?thesis by (simp add: make_zipinfo_def loc loc' ty(1) Let_def)
  qed
  from w(1) relaxed strict show ?thesis by blast
qed

text \<open>A file modified on 1979-06-01, in the example timezone.\<close>

theorem make_zipinfo_clamps_witness:
  "Wheel_init fields_tz = Inr fields_wheel
   \<and> \<not> strict_timestamps fields_wheel
   \<and> (\<exists>z. make_zipinfo fields_wheel (PurePosixPath [''a.py'']) (Some S_IFREG)
             (DtNum (1979, 6, 1, 12, 0, 0, 0)) True True True = Inr z
          \<and> zi_date_time z = (1980, 1, 1, 0, 0, 0))
   \<and> make_zipinfo (fields_wheel\<lparr>strict_timestamps := True\<rparr>) (PurePosixPath [''a.py''])
         (Some S_IFREG) (DtNum (1979, 6, 1, 12, 0, 0, 0)) True True True
       = Inl (ValueError_before (1980, 1, 1, 0, 0, 0, 0))"
proof -
  have lo: "localize_naive fields_tz [1980, 1, 1] = Inr (1980, 1, 1, 0, 0, 0, 0)"
    by (simp add: fields_tz_def)
  have hi: "localize_naive fields_tz [2107, 12, 31, 23, 59, 59, 999999]
              = Inr (2107, 12, 31, 23, 59, 59, 999999)"
    by (simp add: fields_tz_def)
  have ty: "resolve_typ (PurePosixPath [''a.py'']) (Some S_IFREG) = Inr S_IFREG"
    by (simp add: resolve_typ_def S_IFMT_def S_IFREG_def S_IFDIR_def S_ISDIR_def oct_def)
  have rel: "\<not> is_absolute (to_parts (PurePosixPath [''a.py'']))"
    by (simp add: is_absolute_def startswith_def)
  have loc: "to_local fields_wheel (DtNum (1979, 6, 1, 12, 0, 0, 0))
               = Inr (1979, 6, 1, 12, 0, 0, 0)"
    by (simp add: to_local_def fields_wheel_def fields_tz_def)
  have below: "(1979, 6, 1, 12, 0, 0, 0) < ((1980, 1, 1, 0, 0, 0, 0) :: datetime)"
    by (simp add: less_prod_def)
  from make_zipinfo_clamps [OF fields_wheel_init lo hi ty _ rel loc, of True True True] below
  show ?thesis by (simp add: fields_wheel_init)
qed

section \<open>Properties of the traversal\<close>

lemma node_name_prune: "node_name (prune d) = node_name d"
  by (cases d) simp_all

lemma scan_prune:
  "scan w rel isd (prune_tree ns) (map prune dirs, files, dt)
   = map_sum id (\<lambda>(ds, fs, t). (map prune ds, fs, t)) (scan w rel isd ns (dirs, files, dt))"
proof (induction w rel isd ns "(dirs, files, dt)" arbitrary: dirs files dt rule: scan.induct)
  case (1 w rel isd)
  then show ?case by (simp add: prune_tree_def)
next
  case (2 w rel isd n ns)
  then show ?case by (simp add: prune_tree_def is_pycache_def)
next
  case (3 w rel isd n m ch ns dirs files dt)
  then show ?case by (simp add: prune_tree_def is_pycache_def)
next
  case (4 w rel isd n mode mtime x_ok w_ok content ns dirs files dt)
  then show ?case by (simp add: prune_tree_def is_pycache_def split: sum.splits)
next
  case (5 w rel isd n ns)
  then show ?case by (simp add: prune_tree_def is_pycache_def)
qed

lemma sort_key_map_prune:
  "sort_key (\<lambda>d. casefold (node_name d)) (map prune ds)
   = map prune (sort_key (\<lambda>d. casefold (node_name d)) ds)"
proof (induction ds)
  case Nil then show ?case by simp
next
  case (Cons d ds)
  have ins: "\<And>xs. insort_key (\<lambda>d. casefold (node_name d)) (prune d) (map prune xs)
      = map prune (insort_key (\<lambda>d. casefold (node_name d)) d xs)"
    subgoal for xs by (induction xs) (simp_all add: node_name_prune)
    done
  from Cons show ?case by (simp add: ins)
qed

lemma collect_prune:
  "collect_tree_info w rel (prune_tree tree) out = collect_tree_info w rel tree out"
  "visit_dirs w rel isd k dt (map prune ds) out = visit_dirs w rel isd k dt ds out"
proof (induction w rel tree out and w rel isd k dt ds out rule: collect_tree_info_visit_dirs.induct)
  case (1 w rel tree out_dirs)
  show ?case
  proof (cases "make_zipinfo w (PurePosixPath rel) (Some S_IFDIR) DtNone True True True")
    case (Inl e)
    then show ?thesis by (simp add: collect_tree_info.simps)
  next
    case (Inr tz)
    note tz = this
    show ?thesis
    proof (cases "scan w rel (is_dist_info rel) tree ([], [], zi_date_time tz)")
      case (Inl e)
      with tz scan_prune [of w rel "is_dist_info rel" tree "[]" "[]" "zi_date_time tz"]
      show ?thesis by (simp add: collect_tree_info.simps)
    next
      case (Inr r)
      obtain dirs files dt where r: "r = (dirs, files, dt)" by (cases r) auto
      from Inr r scan_prune [of w rel "is_dist_info rel" tree "[]" "[]" "zi_date_time tz"]
      have sp: "scan w rel (is_dist_info rel) (prune_tree tree) ([], [], zi_date_time tz)
                 = Inr (map prune dirs, files, dt)" by simp
      from "1.IH" [OF tz Inr [unfolded r] refl refl]
      show ?thesis using tz Inr r sp by (simp add: sort_key_map_prune collect_tree_info.simps)
    qed
  qed
next
  case (2 w rel isd k dt out_dirs)
  then show ?case by simp
next
  case (3 w rel isd k dt n m ch ds out_dirs)
  have c: "collect_tree_info w (rel @ [n]) (prune_tree ch) out_dirs
           = collect_tree_info w (rel @ [n]) ch out_dirs"
    using "3.IH"(1) .
  show ?case
  proof (cases "collect_tree_info w (rel @ [n]) ch out_dirs")
    case (Inl e)
    with c show ?thesis by (simp add: prune_tree_def)
  next
    case (Inr r)
    obtain date_time out1 where r: "r = (date_time, out1)" by (cases r) auto
    show ?thesis
    proof (cases "\<not> isd \<and> date_time > dt")
      case True
      from "3.IH"(2) [OF Inr [unfolded r] refl True] c Inr r True
      show ?thesis by (simp add: prune_tree_def)
    next
      case False
      from "3.IH"(3) [OF Inr [unfolded r] refl False] c Inr r False
      show ?thesis by (auto simp: prune_tree_def)
    qed
  qed
next
  case (4 w rel isd k dt n ds out_dirs)
  then show ?case by simp
next
  case (5 w rel isd k dt n mode mtime x_ok w_ok content ds out_dirs)
  then show ?case by simp
next
  case (6 w rel isd k dt n ds out_dirs)
  then show ?case by simp
qed

text \<open>
  C10. \<open>add_tree\<close> on a tree gives exactly what it gives on the tree with every
  directory named \<open>__pycache__\<close> removed, at every level: the same archive entries, the
  same manifest records and staged metadata, the same timestamps, the same error if any.
  Such a directory is thus never archived nor entered, and nothing in it has any effect.
\<close>

theorem add_tree_skips_pycache:
  "add_tree w root (prune_tree tree) = add_tree w root tree"
  by (simp only: add_tree_def collect_prune(1))

section \<open>Properties of the manifest\<close>


lemma set_dict_set: "set (dict_set kvs k v) \<subseteq> insert (k, v) (set kvs)"
  by (induction kvs) (auto split: if_splits)





lemma staged_ok_dict_set:
  "staged_ok d \<Longrightarrow> (case v of None \<Rightarrow> True | Some (c, h) \<Rightarrow> h = c)
   \<Longrightarrow> staged_ok (dict_set d k v)"
  unfolding staged_ok_def using set_dict_set [of d k v] by (auto split: option.splits)

lemma stage_files_same:
  "record_map (stage_files w rel files) = record_map w
   \<and> entries (stage_files w rel files) = entries w
   \<and> (staged_ok (dist_info w) \<longrightarrow> staged_ok (dist_info (stage_files w rel files)))"
  by (induction w rel files rule: stage_files.induct) (auto simp: staged_ok_dict_set)











lemma flush_dist_info_entries:
  "flush_dist_info w pfx items = Inr w1 \<Longrightarrow> \<exists>es. entries w1 = entries w @ es"
proof (induction w pfx items rule: flush_dist_info.induct)
  case (1 w pfx)
  then show ?case by simp
next
  case (2 w pfx rel fl rest)
  then show ?case by (fastforce split: sum.splits option.splits)
qed










section \<open>Properties of the version deriver\<close>

lemma split_on_none: "c \<notin> set a \<Longrightarrow> split_on c a = [a]"
  by (induction a) auto

lemma split_on_first: "c \<notin> set a \<Longrightarrow> split_on c (a @ c # b) = a # split_on c b"
  by (induction a) auto

lemma split_max_none: "c \<notin> set a \<Longrightarrow> split_max c n a = [a]"
  by (induction c n a rule: split_max.induct) auto

lemma split_max_first:
  "c \<notin> set a \<Longrightarrow> split_max c (Suc n) (a @ c # b) = a # split_max c n b"
  by (induction a) auto

lemma rsplit_max_none: "c \<notin> set a \<Longrightarrow> rsplit_max c n a = [a]"
  by (simp add: rsplit_max_def split_max_none)

lemma rsplit_max_two:
  assumes "c \<notin> set x" "c \<notin> set y"
  shows "rsplit_max c 2 (a @ c # x @ c # y) = [a, x, y]"
proof -
  have "rev (a @ c # x @ c # y) = rev y @ c # (rev x @ c # rev a)" by simp
  moreover have "split_max c 2 (rev y @ c # (rev x @ c # rev a)) = [rev y, rev x, rev a]"
    using assms by (simp add: numeral_2_eq_2 split_max_first)
  ultimately show ?thesis by (simp add: rsplit_max_def)
qed

lemma endswith_append: "endswith (a @ p) p"
  by (simp add: endswith_def)

lemma endswith_last: "endswith s p \<Longrightarrow> p \<noteq> [] \<Longrightarrow> s \<noteq> [] \<and> last s = last p"
proof -
  assume e: "endswith s p" and p: "p \<noteq> []"
  from e have "s = take (length s - length p) s @ p"
    by (simp add: endswith_def) (metis append_take_drop_id)
  then obtain a where s: "s = a @ p" ..
  with p show ?thesis by simp
qed

lemma is_hex_not_dirty: "is_hex h \<Longrightarrow> \<not> endswith (a @ h) ''-dirty''"
proof
  assume h: "is_hex h" and e: "endswith (a @ h) ''-dirty''"
  from endswith_last [OF e] have "last (a @ h) = CHR ''y''" by simp
  moreover from h have "h \<noteq> []" by (simp add: is_hex_def)
  ultimately have "CHR ''y'' \<in> set h" using last_in_set [of h] by simp
  with h have "CHR ''y'' \<in> set ''0123456789abcdef''"
    unfolding is_hex_def list_all_iff by blast
  then show False by simp
qed

lemma is_hex_chars: "is_hex h \<Longrightarrow> CHR ''/'' \<notin> set h \<and> CHR ''-'' \<notin> set h"
proof -
  assume "is_hex h"
  then have sub: "set h \<subseteq> set ''0123456789abcdef''"
    unfolding is_hex_def list_all_iff by blast
  have "CHR ''/'' \<notin> set ''0123456789abcdef''" "CHR ''-'' \<notin> set ''0123456789abcdef''"
    by simp_all
  with sub show ?thesis by blast
qed

lemma removesuffix_append: "removesuffix (a @ p) p = a"
  by (simp add: removesuffix_def endswith_append)

lemma version_of_described_as:
  assumes bucket: "bucket = ''tags'' \<or> bucket = ''heads''"
    and name: "CHR ''/'' \<notin> set name"
    and cnt: "CHR ''/'' \<notin> set cnt" "CHR ''-'' \<notin> set cnt"
    and hash: "is_hex hash"
  shows "version_of_describe lib head (described_as bucket name cnt hash dirty) =
     (let local = (if head \<notin> set [''main'', ''master'', ''develop''] then [head] else []) in
      case (if version_pattern lib name
            then (case parse_version lib name of
                    Inl e \<Rightarrow> Inl e
                  | Inr v \<Rightarrow>
                      Inr (v, (case local_version v of
                                 Some l \<Rightarrow> if l \<noteq> [] then local @ [l] else local
                               | None \<Rightarrow> local)))
            else Inr (Version_0_0, local @ [name])) of
        Inl e \<Rightarrow> Inl e
      | Inr (v, local) \<Rightarrow>
          (case int_of_string cnt of
             Inl e \<Rightarrow> Inl e
           | Inr post_n \<Rightarrow>
               Inr (compose v post_n dirty
                      (if post_n \<noteq> 0 \<or> dirty then local @ [CHR ''g'' # hash] else local))))"
proof -
  let ?core = "bucket @ ''/'' @ name @ ''-'' @ cnt @ ''-g'' @ hash"
  let ?tail = "name @ ''-'' @ cnt @ ''-g'' @ hash"
  have d: "endswith (described_as bucket name cnt hash dirty) ''-dirty'' = dirty"
  proof (cases dirty)
    case True
    have "endswith (?core @ ''-dirty'') ''-dirty''" by (rule endswith_append)
    with True show ?thesis by (simp add: described_as_def)
  next
    case False
    have "\<not> endswith ((bucket @ ''/'' @ name @ ''-'' @ cnt @ ''-g'') @ hash) ''-dirty''"
      by (rule is_hex_not_dirty [OF hash])
    with False show ?thesis by (simp add: described_as_def)
  qed
  have r: "removesuffix (described_as bucket name cnt hash dirty) ''-dirty'' = ?core"
  proof (cases dirty)
    case True
    have "removesuffix (?core @ ''-dirty'') ''-dirty'' = ?core" by (rule removesuffix_append)
    with True show ?thesis by (simp add: described_as_def)
  next
    case False
    with d show ?thesis by (simp add: removesuffix_def described_as_def)
  qed
  have nb: "CHR ''/'' \<notin> set bucket" using bucket by auto
  have nt: "CHR ''/'' \<notin> set ?tail" using name cnt is_hex_chars [OF hash] by auto
  have s: "split_on (CHR ''/'') ?core = [bucket, ?tail]"
    using split_on_first [OF nb, of ?tail] split_on_none [OF nt] by simp
  have ng: "CHR ''-'' \<notin> set (CHR ''g'' # hash)" using is_hex_chars [OF hash] by auto
  have p: "rsplit_max (CHR ''-'') 2 ?tail = [name, cnt, CHR ''g'' # hash]"
    using rsplit_max_two [OF cnt(2) ng, of name] by simp
  have pieces: "butlast [bucket, ?tail] = [bucket]" "last [bucket, ?tail] = ?tail"
    by simp_all
  have loc: "(if [bucket] \<noteq> [] \<and> hd [bucket] \<in> set [''heads'', ''tags'']
              then tl [bucket] else [bucket]) = []"
    using bucket by auto
  show ?thesis
    apply (unfold version_of_describe_def d r s Let_def pieces)
    apply (unfold loc p)
    apply (simp only: list.case)
    done
qed

lemma get_version_described:
  assumes "symbolic_ref g = Inr head_out" "show_ref g = Inr refs_out"
    "refs_of_lines (splitlines refs_out) = Inr refs"
    "describe g (length (retained lib refs)) (retained lib refs) = Inr describe_out"
  shows "get_version_from_git lib g
         = version_of_describe lib (strip head_out) (strip describe_out)"
  using assms by (simp add: get_version_from_git_def Let_def)

lemma str_nat_0: "str_nat 0 = ''0''"
  by (simp add: str_nat.simps)

lemma version_of_bare_hash:
  assumes "is_hex hash"
  shows "version_of_describe lib head (hash @ (if dirty then ''-dirty'' else []))
         = Inr (compose Version_0_0 0 dirty [CHR ''g'' # hash])"
proof -
  let ?d = "hash @ (if dirty then ''-dirty'' else [])"
  have d: "endswith ?d ''-dirty'' = dirty"
  proof (cases dirty)
    case True
    with endswith_append [of hash "''-dirty''"] show ?thesis by simp
  next
    case False
    with is_hex_not_dirty [OF assms, of "[]"] show ?thesis by simp
  qed
  have r: "removesuffix ?d ''-dirty'' = hash"
  proof (cases dirty)
    case True
    with removesuffix_append [of hash "''-dirty''"] show ?thesis by simp
  next
    case False
    with d show ?thesis by (simp add: removesuffix_def)
  qed
  have s: "split_on (CHR ''/'') hash = [hash]"
    using is_hex_chars [OF assms] by (simp add: split_on_none)
  have p: "rsplit_max (CHR ''-'') 2 hash = [hash]"
    using is_hex_chars [OF assms] by (simp add: rsplit_max_none)
  have pieces: "butlast [hash] = []" "last [hash] = hash" by simp_all
  show ?thesis
    unfolding version_of_describe_def d r s Let_def pieces p
    by (simp only: list.case)
qed

lemma compose_bare:
  "compose Version_0_0 0 dirty [CHR ''g'' # hash]
   = ''0.0'' @ (if dirty then ''.post0'' else []) @ ''+g'' @ hash
     @ (if dirty then ''.dirty'' else [])"
  by (simp add: compose_def Version_0_0_def pre_str_def dev_str_def str_int_def str_nat_0)

text \<open>
  C7, as amended. When the describe answer is a bare abbreviated commit id (with
  \<open>-dirty\<close> appended for a dirty tree), \<open>get_version_from_git\<close> does not raise: the
  second \<open>case\<close> of the \<open>match\<close> takes it and the result is \<open>0.0+g<hash>\<close>, or
  \<open>0.0.post0+g<hash>.dirty\<close> for a dirty tree, whatever the branch.
\<close>

theorem version_without_reference:
  assumes "symbolic_ref g = Inr head_out" and "show_ref g = Inr refs_out"
    and "refs_of_lines (splitlines refs_out) = Inr refs"
    and "describe g (length (retained lib refs)) (retained lib refs) = Inr describe_out"
    and "strip describe_out = hash @ (if dirty then ''-dirty'' else [])"
    and "is_hex hash"
  shows "get_version_from_git lib g
         = Inr (''0.0'' @ (if dirty then ''.post0'' else []) @ ''+g'' @ hash
                @ (if dirty then ''.dirty'' else []))"
  unfolding get_version_described [OF assms(1-4)] assms(5)
    version_of_bare_hash [OF assms(6)] compose_bare ..



text \<open>
  C6. For a describe answer \<open><bucket>/<tag>-<n>-g<hash>\<close>, dirty or not, on any
  branch, with a tag that parses to \<open>v\<close>: the result is the base version, the
  pre-release marker, \<open>.postN\<close> exactly when \<open>n\<close> is nonzero or the tree is dirty
  or \<open>v\<close> has a post marker, with \<open>N\<close> the sum of that marker (0 if absent) and
  \<open>n\<close>, the dev marker, and after \<open>+\<close> the dot-joined local segments: the branch
  unless it is a trunk, the local part of \<open>v\<close>, \<open>g<hash>\<close> when \<open>n\<close> is nonzero
  or the tree dirty, and \<open>dirty\<close>.
\<close>

theorem version_with_drift:
  assumes "symbolic_ref g = Inr head_out" and "show_ref g = Inr refs_out"
    and "refs_of_lines (splitlines refs_out) = Inr refs"
    and "describe g (length (retained lib refs)) (retained lib refs) = Inr describe_out"
    and shape: "strip describe_out = described_as bucket tag cnt hash dirty"
    and bucket: "bucket = ''tags'' \<or> bucket = ''heads''"
    and tag: "CHR ''/'' \<notin> set tag" "version_pattern lib tag" "parse_version lib tag = Inr v"
    and cnt: "CHR ''/'' \<notin> set cnt" "CHR ''-'' \<notin> set cnt" "int_of_string cnt = Inr n"
    and hash: "is_hex hash"
  shows "get_version_from_git lib g =
     Inr (base_version v @ pre_str v
          @ (if n \<noteq> 0 \<or> dirty \<or> post v \<noteq> None
             then ''.post'' @ str_int (int (case post v of None \<Rightarrow> 0 | Some p \<Rightarrow> p) + n)
             else [])
          @ dev_str v
          @ (let local =
                   (if strip head_out \<notin> set [''main'', ''master'', ''develop'']
                    then [strip head_out] else [])
                   @ (case local_version v of
                        Some l \<Rightarrow> if l \<noteq> [] then [l] else [] | None \<Rightarrow> [])
                   @ (if n \<noteq> 0 \<or> dirty then [CHR ''g'' # hash] else [])
                   @ (if dirty then [''dirty''] else [])
             in if local \<noteq> [] then ''+'' @ join ''.'' local else []))"
  unfolding get_version_described [OF assms(1-4)] shape
  by (subst version_of_described_as [OF bucket tag(1) cnt(1,2) hash])
     (simp add: tag cnt compose_def Let_def split: option.splits)

lemma demo_git_refs:
  "symbolic_ref (demo_git head described) = Inr (head @ [CHR 0x0A])"
  "\<exists>refs_out. show_ref (demo_git head described) = Inr refs_out
      \<and> refs_of_lines (splitlines refs_out) = Inr [''main'', ''v1.2.3'']"
  "retained demo_packaging [''main'', ''v1.2.3''] = [''v1.2.3'']"
  "describe (demo_git head described) n refs = Inr (described @ [CHR 0x0A])"
proof -
  show "symbolic_ref (demo_git head described) = Inr (head @ [CHR 0x0A])"
    by (simp add: demo_git_def)
  have "refs_of_lines (splitlines
          (''1111111111111111111111111111111111111111 refs/heads/main''
                       @ [CHR 0x0A]
                       @ ''2222222222222222222222222222222222222222 refs/tags/v1.2.3''
                       @ [CHR 0x0A])) = Inr [''main'', ''v1.2.3'']"
    by code_simp
  then show "\<exists>refs_out. show_ref (demo_git head described) = Inr refs_out
      \<and> refs_of_lines (splitlines refs_out) = Inr [''main'', ''v1.2.3'']"
    by (simp add: demo_git_def)
  show "retained demo_packaging [''main'', ''v1.2.3''] = [''v1.2.3'']"
    by code_simp
  show "describe (demo_git head described) n refs = Inr (described @ [CHR 0x0A])"
    by (simp add: demo_git_def)
qed

lemma demo_parse:
  "version_pattern demo_packaging ''v1.2.3''"
  "parse_version demo_packaging ''v1.2.3''
     = Inr \<lparr> base_version = ''1.2.3'', pre = None, post = None, dev = None,
               local_version = None \<rparr>"
  by (simp_all add: demo_packaging_def)


text \<open>
  Three commits past \<open>v1.2.3\<close> on \<open>feature-x\<close>, with uncommitted changes.
\<close>

theorem version_with_drift_witness:
  "get_version_from_git demo_packaging (demo_git ''feature-x'' ''tags/v1.2.3-3-gabcdef1-dirty'')
   = Inr ''1.2.3.post3+feature-x.gabcdef1.dirty''"
proof -
  let ?g = "demo_git ''feature-x'' ''tags/v1.2.3-3-gabcdef1-dirty''"
  let ?v = "\<lparr> base_version = ''1.2.3'', pre = None, post = None, dev = None,
               local_version = None \<rparr>"
  from demo_git_refs(2) [of "''feature-x''" "''tags/v1.2.3-3-gabcdef1-dirty''"]
  obtain refs_out where
    2: "show_ref ?g = Inr refs_out"
    and 3: "refs_of_lines (splitlines refs_out) = Inr [''main'', ''v1.2.3'']" by blast
  have 4: "describe ?g (length (retained demo_packaging [''main'', ''v1.2.3'']))
             (retained demo_packaging [''main'', ''v1.2.3''])
           = Inr (''tags/v1.2.3-3-gabcdef1-dirty'' @ [CHR 0x0A])"
    by (rule demo_git_refs(4))
  have 5: "strip (''tags/v1.2.3-3-gabcdef1-dirty'' @ [CHR 0x0A])
           = described_as ''tags'' ''v1.2.3'' ''3'' ''abcdef1'' True"
    by code_simp
  have 6: "''tags'' = ''tags'' \<or> ''tags'' = ''heads''" by simp
  have 7: "CHR ''/'' \<notin> set ''v1.2.3''" "CHR ''/'' \<notin> set ''3''" "CHR ''-'' \<notin> set ''3''"
    by simp_all
  have 8: "int_of_string ''3'' = Inr 3" by code_simp
  have 9: "is_hex ''abcdef1''" by code_simp
  have h: "strip (''feature-x'' @ [CHR 0x0A]) = ''feature-x''" by code_simp
  have s: "str_int 3 = ''3''" by code_simp
  from version_with_drift [OF demo_git_refs(1) 2 3 4 5 6 7(1) demo_parse 7(2,3) 8 9] h
  show ?thesis
    by (simp add: s pre_str_def dev_str_def)
qed

text \<open>
  A bare commit id as describe answer: a version string is returned, no error raised.
\<close>

theorem version_without_reference_counterexample:
  "get_version_from_git demo_packaging (demo_git ''main'' ''abcdef1'') = Inr ''0.0+gabcdef1''
   \<and> get_version_from_git demo_packaging (demo_git ''main'' ''abcdef1'')
       \<noteq> Inl NotImplementedError"
proof -
  have "get_version_from_git demo_packaging (demo_git ''main'' ''abcdef1'')
        = Inr ''0.0+gabcdef1''"
    by code_simp
  then show ?thesis by simp
qed

text \<open>
  A bare commit id and a dirty tree, on \<open>feature-x\<close>.
\<close>

theorem version_without_reference_witness:
  "get_version_from_git demo_packaging (demo_git ''feature-x'' ''abcdef1-dirty'')
   = Inr ''0.0.post0+gabcdef1.dirty''"
proof -
  let ?g = "demo_git ''feature-x'' ''abcdef1-dirty''"
  from demo_git_refs(2) [of "''feature-x''" "''abcdef1-dirty''"]
  obtain refs_out where
    2: "show_ref ?g = Inr refs_out"
    and 3: "refs_of_lines (splitlines refs_out) = Inr [''main'', ''v1.2.3'']" by blast
  have 4: "describe ?g (length (retained demo_packaging [''main'', ''v1.2.3'']))
             (retained demo_packaging [''main'', ''v1.2.3''])
           = Inr (''abcdef1-dirty'' @ [CHR 0x0A])"
    by (rule demo_git_refs(4))
  have 5: "strip (''abcdef1-dirty'' @ [CHR 0x0A])
           = ''abcdef1'' @ (if True then ''-dirty'' else [])"
    by code_simp
  have 6: "is_hex ''abcdef1''" by code_simp
  from version_without_reference [OF demo_git_refs(1) 2 3 4 5 6]
  show ?thesis by simp
qed

section \<open>The traversal as a relation, and directory timestamps\<close>

lemma scan_char:
  "scan w rel isd ns (dirs, files, dt) = Inr (dirs', files', dt') \<longleftrightarrow>
     (\<exists>fs. list_all2 (\<lambda>f e. file_entry w rel isd f = Inr e) (filter is_regular ns) fs
         \<and> dirs' = dirs @ filter kept_dir ns \<and> files' = files @ fs
         \<and> dt' = (if isd then dt else fold max (map (\<lambda>e. zi_date_time (snd e)) fs) dt))"
proof (induction w rel isd ns "(dirs, files, dt)" arbitrary: dirs files dt rule: scan.induct)
  case (1 w rel isd)
  then show ?case by auto
next
  case (2 w rel isd n ns)
  then show ?case by (simp add: is_regular_def kept_dir_def)
next
  case (3 w rel isd n m ch ns dirs files dt)
  then show ?case by (simp add: is_regular_def kept_dir_def)
next
  case (4 w rel isd n mode mtime x_ok w_ok content ns dirs files dt)
  show ?case
  proof (cases "file_zipinfo w rel isd n mode mtime x_ok w_ok")
    case (Inl e)
    then show ?thesis
      by (simp add: is_regular_def kept_dir_def file_entry_def list_all2_Cons1)
  next
    case (Inr z)
    let ?f = "RegularFile n mode mtime x_ok w_ok content"
    let ?e = "((n, content), z)"
    let ?d = "if \<not> isd \<and> dt < zi_date_time z then zi_date_time z else dt"
    let ?P = "\<lambda>f e. file_entry w rel isd f = Inr e"
    have fe: "file_entry w rel isd ?f = Inr ?e" by (simp add: file_entry_def Inr)
    have reg: "filter is_regular (?f # ns) = ?f # filter is_regular ns"
      and kept: "filter kept_dir (?f # ns) = filter kept_dir ns"
      by (simp_all add: is_regular_def kept_dir_def)
    have step: "scan w rel isd (?f # ns) (dirs, files, dt)
                = scan w rel isd ns (dirs, files @ [?e], ?d)"
      by (simp add: Inr)
    have m: "\<And>fs. (if isd then ?d else fold max (map (\<lambda>e. zi_date_time (snd e)) fs) ?d)
             = (if isd then dt
                else fold max (map (\<lambda>e. zi_date_time (snd e)) (?e # fs)) dt)"
      by (auto simp: max_def)
    have c: "\<And>fs'. list_all2 ?P (?f # filter is_regular ns) fs'
               \<longleftrightarrow> (\<exists>fs. fs' = ?e # fs \<and> list_all2 ?P (filter is_regular ns) fs)"
      by (auto simp: list_all2_Cons1 fe)
    show ?thesis
      unfolding step "4.hyps" [OF Inr] reg kept c m by auto
  qed
next
  case (5 w rel isd n ns)
  then show ?case by (simp add: is_regular_def kept_dir_def)
qed

lemma set_dir_time_append:
  "k < length out \<Longrightarrow> set_dir_time k d (out @ es) = set_dir_time k d out @ es"
  by (auto simp: set_dir_time_def nth_append list_update_append split: prod.splits dir_entry.splits)

lemma set_dir_time_twice:
  "set_dir_time k d (set_dir_time k d' out) = set_dir_time k d out"
  by (auto simp: set_dir_time_def split: prod.splits dir_entry.splits)

lemma length_set_dir_time [simp]: "length (set_dir_time k d out) = length out"
  by (auto simp: set_dir_time_def split: prod.splits dir_entry.splits)

lemma set_dir_time_last:
  "set_dir_time (length out) d (out @ [(ZipDir z, fs)])
   = out @ [(ZipDir (z\<lparr>zi_date_time := d\<rparr>), fs)]"
  by (simp add: set_dir_time_def)

lemma fold_max_ge: "(d :: 'a :: linorder) \<le> fold max xs d"
proof (induction xs arbitrary: d)
  case Nil
  then show ?case by simp
next
  case (Cons x xs)
  have "d \<le> max x d" by simp
  also have "\<dots> \<le> fold max xs (max x d)" by (rule Cons.IH)
  finally show ?case by simp
qed

lemma fold_max_absorb: "(x :: 'a :: linorder) \<le> d \<Longrightarrow> fold max (x # xs) d = fold max xs d"
  by (simp add: max_absorb2)

lemma visited_Nil: "visited isd k dt [] out = (dt, out)"
  by (simp add: visited_def)

lemma visited_Cons:
  assumes "k < length out"
  shows "visited isd k dt ((t, es) # rs) out =
     (if \<not> isd \<and> dt < t then visited isd k t rs (set_dir_time k t (out @ es))
      else visited isd k dt rs (out @ es))"
proof (cases "\<not> isd \<and> dt < t")
  case True
  then have mx: "max t dt = t" by (simp add: max_absorb1 less_imp_le)
  let ?dt' = "fold max (map fst rs) t"
  have ge: "t \<le> ?dt'" by (rule fold_max_ge)
  with True have lt: "dt < ?dt'" by (meson less_le_trans)
  have "(if t < ?dt' then set_dir_time k ?dt' (set_dir_time k t (out @ es))
         else set_dir_time k t (out @ es)) = set_dir_time k ?dt' out @ es"
  proof (cases "t < ?dt'")
    case True
    then show ?thesis by (simp add: set_dir_time_twice set_dir_time_append assms)
  next
    case False
    with ge have "?dt' = t" by simp
    then show ?thesis by (simp add: set_dir_time_append assms)
  qed
  with True lt show ?thesis by (simp add: visited_def mx Let_def)
next
  case False
  show ?thesis
  proof (cases isd)
    case True
    then show ?thesis by (simp add: visited_def)
  next
    case isd: False
    with False have "t \<le> dt" by simp
    then have mx: "max t dt = dt" by (simp add: max_absorb2)
    with isd False show ?thesis
      by (simp add: visited_def mx Let_def set_dir_time_append assms)
  qed
qed

lemma collect_sound:
  "collect_tree_info w rel tree out = Inr (dt, out')
     \<Longrightarrow> \<exists>es. out' = out @ es \<and> walk w rel tree dt es"
  "visit_dirs w rel isd k dt0 ds out = Inr (dt, out') \<Longrightarrow> k < length out
     \<Longrightarrow> \<exists>rs. list_all2 (\<lambda>d r. walk w (rel @ [node_name d]) (children d) (fst r) (snd r))
                 (filter is_directory ds) rs
            \<and> (dt, out') = visited isd k dt0 rs out"
proof (induction w rel tree out and w rel isd k dt0 ds out
       arbitrary: dt out' and dt out' rule: collect_tree_info_visit_dirs.induct)
  case (1 w rel tree out_dirs)
  let ?isd = "is_dist_info rel"
  from "1.prems" obtain tz where
    tz: "make_zipinfo w (PurePosixPath rel) (Some S_IFDIR) DtNone True True True = Inr tz"
    by (auto simp: collect_tree_info.simps split: sum.splits)
  from "1.prems" tz obtain dirs files dt1 where
    sc: "scan w rel ?isd tree ([], [], zi_date_time tz) = Inr (dirs, files, dt1)"
    by (auto simp: collect_tree_info.simps split: sum.splits)
  let ?e0 = "(if \<not> ?isd then ZipDir (tz\<lparr>zi_date_time := dt1\<rparr>) else DistInfoDir rel,
              sort_key (\<lambda>(p, z). casefold (fst p)) files)"
  let ?ds = "sort_key (\<lambda>d. casefold (node_name d)) dirs"
  from "1.prems" tz sc have
    v: "visit_dirs w rel ?isd (length out_dirs) dt1 ?ds (out_dirs @ [?e0]) = Inr (dt, out')"
    by (simp add: collect_tree_info.simps)
  from "1.IH" [OF tz sc refl refl v] obtain rs where
    rs: "list_all2 (\<lambda>d r. walk w (rel @ [node_name d]) (children d) (fst r) (snd r))
           (filter is_directory ?ds) rs"
    and res: "(dt, out') = visited ?isd (length out_dirs) dt1 rs (out_dirs @ [?e0])"
    by auto
  from sc [unfolded scan_char] obtain fs where
    fs: "list_all2 (\<lambda>f e. file_entry w rel ?isd f = Inr e) (filter is_regular tree) fs"
    and dirs: "dirs = filter kept_dir tree" and files: "files = fs"
    and dt1: "dt1 = (if ?isd then zi_date_time tz
                     else fold max (map (\<lambda>e. zi_date_time (snd e)) fs) (zi_date_time tz))"
    by auto
  have alld: "filter is_directory ?ds = ?ds"
    by (auto simp: dirs kept_dir_def is_directory_def split: node.splits)
  have dt: "dt = (if ?isd then zi_date_time tz else fold max (map fst rs) dt1)"
    using res dt1 by (auto simp: visited_def Let_def)
  have out': "out' = out_dirs @
      ((if \<not> ?isd then ZipDir (tz\<lparr>zi_date_time := dt\<rparr>) else DistInfoDir rel,
        sort_key (\<lambda>(p, z). casefold (fst p)) files) # concat (map snd rs))"
  proof (cases ?isd)
    case True
    with res dt1 show ?thesis by (simp add: visited_def Let_def)
  next
    case False
    show ?thesis
    proof (cases "dt1 < dt")
      case True
      with res False dt show ?thesis
        by (simp add: visited_def Let_def set_dir_time_last)
    next
      case nlt: False
      have "dt1 \<le> dt" using dt False fold_max_ge [of dt1 "map fst rs"] by simp
      with nlt have "dt = dt1" by simp
      with res False dt show ?thesis by (simp add: visited_def Let_def)
    qed
  qed
  have "walk w rel tree dt
      ((if \<not> ?isd then ZipDir (tz\<lparr>zi_date_time := dt\<rparr>) else DistInfoDir rel,
        sort_key (\<lambda>(p, z). casefold (fst p)) fs) # concat (map snd rs))"
  proof (rule walk.walk [OF tz fs])
    from rs alld dirs
    show "list_all2 (\<lambda>d r. walk w (rel @ [node_name d]) (children d) (fst r) (snd r))
            (sort_key (\<lambda>d. casefold (node_name d)) (filter kept_dir tree)) rs"
      by simp
    from dt dt1
    show "dt = (if ?isd then zi_date_time tz
           else fold max (map fst rs)
                  (fold max (map (\<lambda>e. zi_date_time (snd e)) fs) (zi_date_time tz)))"
      by simp
  qed
  with out' files show ?case by blast
next
  case (2 w rel isd k dt0 out_dirs)
  then show ?case by (simp add: visited_Nil)
next
  case (3 w rel isd k dt0 n m ch ds out_dirs)
  from "3.prems"(1) obtain t out1 where
    c: "collect_tree_info w (rel @ [n]) ch out_dirs = Inr (t, out1)"
    by (auto split: sum.splits)
  from "3.IH"(1) [OF c] obtain es where
    es: "out1 = out_dirs @ es" and wk: "walk w (rel @ [n]) ch t es" by blast
  show ?case
  proof (cases "\<not> isd \<and> dt0 < t")
    case True
    with "3.prems"(1) c have
      v: "visit_dirs w rel isd k t ds (set_dir_time k t out1) = Inr (dt, out')" by simp
    have "k < length (set_dir_time k t out1)" using "3.prems"(2) es by simp
    from "3.IH"(2) [OF c refl True v this] obtain rs where
      rs: "list_all2 (\<lambda>d r. walk w (rel @ [node_name d]) (children d) (fst r) (snd r))
             (filter is_directory ds) rs"
      and res: "(dt, out') = visited isd k t rs (set_dir_time k t out1)" by blast
    have "list_all2 (\<lambda>d r. walk w (rel @ [node_name d]) (children d) (fst r) (snd r))
            (filter is_directory (Directory n m ch # ds)) ((t, es) # rs)"
      using rs wk by (simp add: is_directory_def)
    moreover have "(dt, out') = visited isd k dt0 ((t, es) # rs) out_dirs"
      using res True es by (simp add: visited_Cons [OF "3.prems"(2)])
    ultimately show ?thesis by blast
  next
    case False
    with "3.prems"(1) c have
      v: "visit_dirs w rel isd k dt0 ds out1 = Inr (dt, out')" by auto
    have "k < length out1" using "3.prems"(2) es by simp
    from "3.IH"(3) [OF c refl False v this] obtain rs where
      rs: "list_all2 (\<lambda>d r. walk w (rel @ [node_name d]) (children d) (fst r) (snd r))
             (filter is_directory ds) rs"
      and res: "(dt, out') = visited isd k dt0 rs out1" by blast
    have "list_all2 (\<lambda>d r. walk w (rel @ [node_name d]) (children d) (fst r) (snd r))
            (filter is_directory (Directory n m ch # ds)) ((t, es) # rs)"
      using rs wk by (simp add: is_directory_def)
    moreover have "(dt, out') = visited isd k dt0 ((t, es) # rs) out_dirs"
      using res False es by (auto simp: visited_Cons [OF "3.prems"(2)])
    ultimately show ?thesis by blast
  qed
next
  case (4 w rel isd k dt0 n ds out_dirs)
  then show ?case by (simp add: is_directory_def)
next
  case (5 w rel isd k dt0 n mode mtime x_ok w_ok content ds out_dirs)
  then show ?case by (simp add: is_directory_def)
next
  case (6 w rel isd k dt0 n ds out_dirs)
  then show ?case by (simp add: is_directory_def)
qed

lemma visited_top:
  "visited isd (length out) dt1 rs
     (out @ [(if \<not> isd then ZipDir (zi\<lparr>zi_date_time := dt1\<rparr>) else DistInfoDir rel, fs)])
   = (if isd then dt1 else fold max (map fst rs) dt1,
      out @ (if \<not> isd
             then ZipDir (zi\<lparr>zi_date_time := (if isd then dt1 else fold max (map fst rs) dt1)\<rparr>)
             else DistInfoDir rel, fs) # concat (map snd rs))"
proof (cases isd)
  case True
  then show ?thesis by (simp add: visited_def)
next
  case False
  let ?dt = "fold max (map fst rs) dt1"
  show ?thesis
  proof (cases "dt1 < ?dt")
    case True
    with False show ?thesis by (simp add: visited_def Let_def set_dir_time_last)
  next
    case nlt: False
    with fold_max_ge [of dt1 "map fst rs"] have "?dt = dt1" by simp
    with False show ?thesis by (simp add: visited_def Let_def)
  qed
qed

lemma visit_complete:
  assumes "list_all2 (\<lambda>d r. \<forall>out. collect_tree_info w (rel @ [node_name d]) (children d) out
                                     = Inr (fst r, out @ snd r)) ds rs"
    and "\<forall>d\<in>set ds. is_directory d" and "k < length out"
  shows "visit_dirs w rel isd k dt ds out = Inr (visited isd k dt rs out)"
  using assms
proof (induction ds rs arbitrary: dt out rule: list_all2_induct)
  case Nil
  then show ?case by (simp add: visited_Nil)
next
  case (Cons d ds r rs)
  from Cons.prems(1) obtain n m ch where d: "d = Directory n m ch"
    by (cases d) (auto simp: is_directory_def)
  obtain t es where r: "r = (t, es)" by (cases r) auto
  from Cons.hyps(1) d r have
    c: "collect_tree_info w (rel @ [n]) ch out = Inr (t, out @ es)" by simp
  from Cons.prems(1) have all: "\<forall>d\<in>set ds. is_directory d" by simp
  show ?case
  proof (cases "\<not> isd \<and> dt < t")
    case True
    have "k < length (set_dir_time k t (out @ es))" using Cons.prems(2) by simp
    from Cons.IH [OF all this] True c show ?thesis
      by (simp add: d r visited_Cons [OF Cons.prems(2)])
  next
    case False
    have "k < length (out @ es)" using Cons.prems(2) by simp
    from Cons.IH [OF all this] False c show ?thesis
      by (auto simp: d r visited_Cons [OF Cons.prems(2)])
  qed
qed

lemma collect_complete:
  "walk w rel tree dt es \<Longrightarrow> collect_tree_info w rel tree out = Inr (dt, out @ es)"
proof (induction rel tree dt es arbitrary: out rule: walk.induct)
  case (walk rel tz tree fs rs dt)
  let ?isd = "is_dist_info rel"
  let ?ds = "sort_key (\<lambda>d. casefold (node_name d)) (filter kept_dir tree)"
  let ?dt1 = "if ?isd then zi_date_time tz
              else fold max (map (\<lambda>e. zi_date_time (snd e)) fs) (zi_date_time tz)"
  have sc: "scan w rel ?isd tree ([], [], zi_date_time tz)
            = Inr (filter kept_dir tree, fs, ?dt1)"
    unfolding scan_char using walk.hyps(2) by auto
  have alld: "\<forall>d\<in>set ?ds. is_directory d"
    by (auto simp: kept_dir_def is_directory_def split: node.splits)
  have ih: "list_all2 (\<lambda>d r. \<forall>out. collect_tree_info w (rel @ [node_name d]) (children d) out
                                     = Inr (fst r, out @ snd r)) ?ds rs"
    using walk.IH by (rule list_all2_mono) auto
  have v: "visit_dirs w rel ?isd (length out) ?dt1 ?ds
             (out @ [(if \<not> ?isd then ZipDir (tz\<lparr>zi_date_time := ?dt1\<rparr>)
                      else DistInfoDir rel, sort_key (\<lambda>(p, z). casefold (fst p)) fs)])
           = Inr (visited ?isd (length out) ?dt1 rs
                   (out @ [(if \<not> ?isd then ZipDir (tz\<lparr>zi_date_time := ?dt1\<rparr>)
                      else DistInfoDir rel, sort_key (\<lambda>(p, z). casefold (fst p)) fs)]))"
    by (rule visit_complete [OF ih alld]) simp
  have dt: "dt = (if ?isd then ?dt1 else fold max (map fst rs) ?dt1)"
    using walk.hyps(3) by simp
  show ?case
    unfolding collect_tree_info.simps [of w rel tree out]
    by (simp add: walk.hyps(1) sc v visited_top dt)
qed

lemma collect_walk:
  "collect_tree_info w rel tree out = Inr (dt, out')
   \<longleftrightarrow> (\<exists>es. out' = out @ es \<and> walk w rel tree dt es)"
  using collect_sound(1) collect_complete by blast

lemma list_all2_in_left:
  "list_all2 P xs ys \<Longrightarrow> x \<in> set xs \<Longrightarrow> \<exists>y\<in>set ys. P x y"
  by (induction rule: list_all2_induct) auto

lemma list_all2_in_right:
  "list_all2 P xs ys \<Longrightarrow> y \<in> set ys \<Longrightarrow> \<exists>x\<in>set xs. P x y"
  by (induction rule: list_all2_induct) auto

lemma fold_max_in: "fold max xs (d :: 'a :: linorder) \<in> insert d (set xs)"
proof (induction xs arbitrary: d)
  case Nil
  then show ?case by simp
next
  case (Cons x xs)
  from Cons.IH [of "max x d"] show ?case by (auto simp: max_def split: if_splits)
qed

lemma fold_max_upper: "x \<in> set xs \<Longrightarrow> x \<le> fold max xs (d :: 'a :: linorder)"
proof (induction xs arbitrary: d)
  case Nil
  then show ?case by simp
next
  case (Cons y ys)
  show ?case
  proof (cases "x = y")
    case True
    have "x \<le> max y d" using True by simp
    also have "\<dots> \<le> fold max ys (max y d)" by (rule fold_max_ge)
    finally show ?thesis by simp
  next
    case False
    with Cons.prems have "x \<in> set ys" by simp
    from Cons.IH [OF this] show ?thesis by simp
  qed
qed

lemma dir_zipinfo_time:
  assumes "make_zipinfo w p (Some S_IFDIR) DtNone tr ex wr = Inr z"
    and "make_zipinfo w p' (Some S_IFDIR) DtNone tr' ex' wr' = Inr z'"
  shows "zi_date_time z = zi_date_time z'"
proof -
  from assms(1) obtain l c where "to_local w DtNone = Inr l" "clamp_dt w l = Inr c"
    "zi_date_time z = timetuple6 c" by (rule make_zipinfo_Inr)
  moreover from assms(2) obtain l' c' where "to_local w DtNone = Inr l'" "clamp_dt w l' = Inr c'"
    "zi_date_time z' = timetuple6 c'" by (rule make_zipinfo_Inr)
  ultimately show ?thesis by simp
qed

lemma resolve_typ_dir: "resolve_typ (PurePosixPath p) (Some S_IFDIR) = Inr S_IFDIR"
  by (simp add: resolve_typ_def S_IFMT_def S_IFDIR_def S_ISDIR_def oct_def)

lemma dir_zipinfo_filename:
  assumes "make_zipinfo w (PurePosixPath p) (Some S_IFDIR) dt tr ex wr = Inr z"
  shows "filename z = as_posix p @ ''/''"
proof -
  from assms obtain t where t: "resolve_typ (PurePosixPath p) (Some S_IFDIR) = Inr t"
    and f: "filename z = (if t = S_IFDIR then as_posix (to_parts (PurePosixPath p)) @ ''/''
                   else as_posix (to_parts (PurePosixPath p)))"
    by (rule make_zipinfo_Inr)
  from t have "t = S_IFDIR" by (simp add: resolve_typ_dir)
  with f show ?thesis by simp
qed

lemma is_dist_info_sub: "rel \<noteq> [] \<Longrightarrow> is_dist_info (rel @ [n]) = is_dist_info rel"
  by (cases rel) (simp_all add: is_dist_info_def)

lemma set_descendant_files:
  "set (descendant_files w rel tree) =
     (\<Union>x\<in>set tree. set (node_files w rel x))"
  by (simp add: descendant_files_def)

lemma node_files_kept:
  "kept_dir d \<Longrightarrow> node_files w rel d = descendant_files w (rel @ [node_name d]) (children d)"
  by (cases d) (simp_all add: kept_dir_def descendant_files_def)

lemma node_files_cases:
  assumes "r \<in> set (node_files w rel x)"
  obtains (regular) n mode mtime x_ok w_ok content where
      "x = RegularFile n mode mtime x_ok w_ok content"
      "r = file_zipinfo w rel False n mode mtime x_ok w_ok"
  | (subdir) "kept_dir x" "r \<in> set (descendant_files w (rel @ [node_name x]) (children x))"
  using assms
  by (cases x) (auto simp: kept_dir_def descendant_files_def split: if_splits)

lemma walk_times:
  assumes "walk w rel tree dt es" and "rel \<noteq> []" and "\<not> is_dist_info rel"
    and d0: "\<forall>p z. make_zipinfo w (PurePosixPath p) (Some S_IFDIR) DtNone True True True = Inr z
               \<longrightarrow> zi_date_time z = d0"
  shows "(\<forall>r\<in>set (descendant_files w rel tree). \<exists>z. r = Inr z
            \<and> (\<exists>e\<in>entry_files es. snd e = z))
       \<and> is_max_of d0 {zi_date_time z | z. Inr z \<in> set (descendant_files w rel tree)} dt
       \<and> (\<exists>z fs. es \<noteq> [] \<and> hd es = (ZipDir z, fs) \<and> zi_date_time z = dt
              \<and> filename z = as_posix rel @ ''/'')"
  using assms(1-3)
proof (induction rel tree dt es rule: walk.induct)
  case (walk rel tzi tree fs rs dt)
  let ?T = "{zi_date_time z | z. Inr z \<in> set (descendant_files w rel tree)}"
  let ?ds = "sort_key (\<lambda>d. casefold (node_name d)) (filter kept_dir tree)"
  let ?es = "(if \<not> is_dist_info rel then ZipDir (tzi\<lparr>zi_date_time := dt\<rparr>)
              else DistInfoDir rel, sort_key (\<lambda>(p, z). casefold (fst p)) fs)
             # concat (map snd rs)"
  let ?ft = "map (\<lambda>e. zi_date_time (snd e)) fs"
  have nd: "\<not> is_dist_info rel" by fact
  have sub_nd: "\<And>n. rel @ [n] \<noteq> [] \<and> \<not> is_dist_info (rel @ [n])"
    using walk.prems by (simp add: is_dist_info_sub)
  have d0tz: "zi_date_time tzi = d0" using d0 walk.hyps(1) by blast
  have dt: "dt = fold max (map fst rs) (fold max ?ft d0)"
    using walk.hyps(3) nd d0tz by simp
  have ih: "\<And>d r. d \<in> set ?ds \<Longrightarrow> r \<in> set rs
            \<Longrightarrow> walk w (rel @ [node_name d]) (children d) (fst r) (snd r) \<Longrightarrow> True"
    by simp
  have sub: "list_all2 (\<lambda>d r.
        (\<forall>x\<in>set (descendant_files w (rel @ [node_name d]) (children d)). \<exists>z. x = Inr z
            \<and> (\<exists>e\<in>entry_files (snd r). snd e = z))
       \<and> is_max_of d0 {zi_date_time z | z.
             Inr z \<in> set (descendant_files w (rel @ [node_name d]) (children d))} (fst r)) ?ds rs"
    by (rule list_all2_mono [OF walk.IH]) (use sub_nd in blast)
  have files_sub: "e \<in> entry_files ?es" if "e \<in> set fs" for e
  proof -
    have "(ZipDir (tzi\<lparr>zi_date_time := dt\<rparr>), sort_key (\<lambda>(p, z). casefold (fst p)) fs)
            \<in> set ?es" using nd by simp
    moreover have "e \<in> set (sort_key (\<lambda>(p, z). casefold (fst p)) fs)" using that by simp
    ultimately show ?thesis unfolding entry_files_def by blast
  qed
  have rs_sub: "\<And>r e. r \<in> set rs \<Longrightarrow> e \<in> entry_files (snd r) \<Longrightarrow> e \<in> entry_files ?es"
    by (auto simp: entry_files_def)
  have each: "\<exists>z. r = Inr z \<and> (\<exists>e\<in>entry_files ?es. snd e = z) \<and> zi_date_time z \<le> dt"
    if r: "r \<in> set (descendant_files w rel tree)" for r
  proof -
    from r obtain x where x: "x \<in> set tree" and rx: "r \<in> set (node_files w rel x)"
      by (auto simp: set_descendant_files)
    from rx show ?thesis
    proof (cases rule: node_files_cases)
      case (regular n mode mtime x_ok w_ok content)
      with x have "x \<in> set (filter is_regular tree)" by (simp add: is_regular_def)
      from list_all2_in_left [OF walk.hyps(2) this] obtain e where
        e: "e \<in> set fs" and fe: "file_entry w rel (is_dist_info rel) x = Inr e" by blast
      from fe regular nd have z: "r = Inr (snd e)"
        by (auto simp: file_entry_def split: sum.splits)
      have "zi_date_time (snd e) \<le> fold max ?ft d0"
        using e by (intro fold_max_upper) auto
      also have "\<dots> \<le> dt" unfolding dt by (rule fold_max_ge)
      finally show ?thesis using z e files_sub by blast
    next
      case subdir
      with x have "x \<in> set ?ds" by simp
      from list_all2_in_left [OF sub this] obtain r' where r': "r' \<in> set rs"
        and all: "\<forall>x\<in>set (descendant_files w (rel @ [node_name x]) (children x)). \<exists>z. x = Inr z
            \<and> (\<exists>e\<in>entry_files (snd r'). snd e = z)"
        and mx: "is_max_of d0 {zi_date_time z | z.
             Inr z \<in> set (descendant_files w (rel @ [node_name x]) (children x))} (fst r')"
        by blast
      from all subdir(2) obtain z e where z: "r = Inr z" and e: "e \<in> entry_files (snd r')" "snd e = z"
        by blast
      from mx z subdir(2) have "zi_date_time z \<le> fst r'" unfolding is_max_of_def by blast
      also have "fst r' \<le> dt" unfolding dt using r' by (intro fold_max_upper) auto
      finally show ?thesis using z e rs_sub [OF r'] by blast
    qed
  qed
  have ge0: "d0 \<le> dt"
  proof -
    have "d0 \<le> fold max ?ft d0" by (rule fold_max_ge)
    also have "\<dots> \<le> dt" unfolding dt by (rule fold_max_ge)
    finally show ?thesis .
  qed
  have att: "dt \<in> insert d0 ?T"
  proof -
    from fold_max_in [of "map fst rs" "fold max ?ft d0"] dt
    consider "dt = fold max ?ft d0" | "dt \<in> set (map fst rs)" by auto
    then show ?thesis
    proof cases
      case 1
      from fold_max_in [of ?ft d0] 1 consider "dt = d0" | "dt \<in> set ?ft" by auto
      then show ?thesis
      proof cases
        case 1
        then show ?thesis by simp
      next
        case 2
        then obtain e where e: "e \<in> set fs" and t: "dt = zi_date_time (snd e)" by auto
        from list_all2_in_right [OF walk.hyps(2) e] obtain x where
          x: "x \<in> set tree" "is_regular x" and fe: "file_entry w rel (is_dist_info rel) x = Inr e"
          by auto
        from x(2) obtain n mode mtime x_ok w_ok content where
          xf: "x = RegularFile n mode mtime x_ok w_ok content"
          by (cases x) (auto simp: is_regular_def)
        with fe nd have "file_zipinfo w rel False n mode mtime x_ok w_ok = Inr (snd e)"
          by (auto simp: file_entry_def split: sum.splits)
        with x(1) xf have "Inr (snd e) \<in> set (descendant_files w rel tree)"
          by (force simp: set_descendant_files)
        with t show ?thesis by blast
      qed
    next
      case 2
      then obtain r where r: "r \<in> set rs" and t: "dt = fst r" by auto
      from list_all2_in_right [OF sub r] obtain d where d: "d \<in> set ?ds"
        and mx: "is_max_of d0 {zi_date_time z | z.
             Inr z \<in> set (descendant_files w (rel @ [node_name d]) (children d))} (fst r)"
        by blast
      from d have dk: "d \<in> set tree" "kept_dir d" by auto
      have "set (descendant_files w (rel @ [node_name d]) (children d))
            \<subseteq> set (descendant_files w rel tree)"
      proof
        fix r assume "r \<in> set (descendant_files w (rel @ [node_name d]) (children d))"
        then have "r \<in> set (node_files w rel d)" by (simp add: node_files_kept [OF dk(2)])
        with dk(1) show "r \<in> set (descendant_files w rel tree)"
          unfolding set_descendant_files by blast
      qed
      with mx t show ?thesis unfolding is_max_of_def by blast
    qed
  qed
  have hd: "\<exists>z fs'. ?es \<noteq> [] \<and> hd ?es = (ZipDir z, fs') \<and> zi_date_time z = dt
              \<and> filename z = as_posix rel @ ''/''"
    using nd dir_zipinfo_filename [OF walk.hyps(1)] by simp
  from each ge0 att hd show ?case
    unfolding is_max_of_def by (intro conjI ballI) (blast, blast, blast, blast)
qed

lemma reached_walk:
  assumes "reached rel tree rel' tree'" and "walk w rel tree dt es"
  shows "\<exists>dt' es'. walk w rel' tree' dt' es' \<and> set es' \<subseteq> set es"
  using assms
proof (induction rule: reached.induct)
  case top
  then show ?case by blast
next
  case (sub rel' tree' n m ch)
  from sub.IH [OF sub.prems] obtain dt' es' where
    wk: "walk w rel' tree' dt' es'" and ss: "set es' \<subseteq> set es" by blast
  from wk obtain rs e where
    es': "es' = e # concat (map snd rs)"
    and rs: "list_all2 (\<lambda>d r. walk w (rel' @ [node_name d]) (children d) (fst r) (snd r))
               (sort_key (\<lambda>d. casefold (node_name d)) (filter kept_dir tree')) rs"
    by (cases rule: walk.cases) blast
  have "Directory n m ch
          \<in> set (sort_key (\<lambda>d. casefold (node_name d)) (filter kept_dir tree'))"
    using sub.hyps(2,3) by (simp add: kept_dir_def)
  from list_all2_in_left [OF rs this] obtain r where r: "r \<in> set rs"
    and w': "walk w (rel' @ [n]) ch (fst r) (snd r)" by auto
  from r es' have "set (snd r) \<subseteq> set es'" by auto
  with ss w' show ?case by blast
qed

lemma reached_not_dist_info:
  "reached rel tree rel' tree' \<Longrightarrow> rel \<noteq> [] \<Longrightarrow> rel' \<noteq> [] \<and> is_dist_info rel' = is_dist_info rel"
  by (induction rule: reached.induct) (simp_all add: is_dist_info_sub)

lemma add_files_entries:
  "set (entries w) \<subseteq> set (entries (add_files w files))
   \<and> (\<forall>n c z. ((n, c), z) \<in> set files \<longrightarrow> (z, Some c) \<in> set (entries (add_files w files)))"
proof (induction w files rule: add_files.induct)
  case (1 w)
  then show ?case by simp
next
  case (2 w name content zinfo files)
  then show ?case by auto
qed

lemma add_dir_entries:
  "set (entries w) \<subseteq> set (entries (add_dir w dir files))
   \<and> (filename dir \<notin> set ['''', ''.'', ''/'', ''./'']
        \<longrightarrow> (dir, None) \<in> set (entries (add_dir w dir files)))
   \<and> (\<forall>n c z. ((n, c), z) \<in> set files \<longrightarrow> (z, Some c) \<in> set (entries (add_dir w dir files)))"
proof -
  let ?w = "if filename dir \<notin> set ['''', ''.'', ''/'', ''./'']
            then w\<lparr>entries := entries w @ [(dir, None)]\<rparr> else w"
  have 1: "set (entries w) \<subseteq> set (entries ?w)" by auto
  have 2: "filename dir \<notin> set ['''', ''.'', ''/'', ''./''] \<longrightarrow> (dir, None) \<in> set (entries ?w)"
    by simp
  from add_files_entries [of ?w files] 1 2 show ?thesis
    unfolding add_dir_def by blast
qed

lemma add_dist_info_entries:
  "add_dist_info w dir files = Inr w' \<Longrightarrow> entries w' = entries w"
  by (auto simp: add_dist_info_def Let_def stage_files_same split: sum.splits)

lemma add_dirs_entries:
  "add_dirs w ds = Inr w' \<Longrightarrow>
   set (entries w) \<subseteq> set (entries w')
   \<and> (\<forall>dir files. (ZipDir dir, files) \<in> set ds \<longrightarrow>
         (filename dir \<notin> set ['''', ''.'', ''/'', ''./''] \<longrightarrow> (dir, None) \<in> set (entries w'))
       \<and> (\<forall>n c z. ((n, c), z) \<in> set files \<longrightarrow> (z, Some c) \<in> set (entries w')))"
proof (induction w ds rule: add_dirs.induct)
  case (1 w)
  then show ?case by simp
next
  case (2 w dir files rest)
  from "2.prems" have r: "add_dirs (add_dir w dir files) rest = Inr w'" by simp
  from "2.IH" [OF r] add_dir_entries [of w dir files] show ?case
    by (simp only: set_simps insert_iff prod.inject dir_entry.inject) blast
next
  case (3 w dir files rest)
  from "3.prems" obtain w1 where a: "add_dist_info w dir files = Inr w1"
    and r: "add_dirs w1 rest = Inr w'" by (auto split: sum.splits)
  from "3.IH" [OF a r] add_dist_info_entries [OF a] show ?case
    by (simp only: set_simps insert_iff prod.inject dir_entry.distinct) blast
qed

lemma add_files_params:
  "tz (add_files w fs) = tz w \<and> min_dt (add_files w fs) = min_dt w
   \<and> max_dt (add_files w fs) = max_dt w
   \<and> strict_timestamps (add_files w fs) = strict_timestamps w"
  by (induction w fs rule: add_files.induct) auto

lemma stage_files_params:
  "tz (stage_files w r fs) = tz w \<and> min_dt (stage_files w r fs) = min_dt w
   \<and> max_dt (stage_files w r fs) = max_dt w
   \<and> strict_timestamps (stage_files w r fs) = strict_timestamps w"
  by (induction w r fs rule: stage_files.induct) auto

lemma add_dirs_params:
  "add_dirs w ds = Inr w' \<Longrightarrow>
   tz w' = tz w \<and> min_dt w' = min_dt w \<and> max_dt w' = max_dt w
   \<and> strict_timestamps w' = strict_timestamps w"
proof (induction w ds rule: add_dirs.induct)
  case (1 w)
  then show ?case by simp
next
  case (2 w dir files rest)
  then show ?case by (simp add: add_dir_def add_files_params)
next
  case (3 w dir files rest)
  from "3.prems" obtain w1 where a: "add_dist_info w dir files = Inr w1"
    and r: "add_dirs w1 rest = Inr w'" by (auto split: sum.splits)
  from a have "tz w1 = tz w \<and> min_dt w1 = min_dt w \<and> max_dt w1 = max_dt w
   \<and> strict_timestamps w1 = strict_timestamps w"
    by (auto simp: add_dist_info_def Let_def stage_files_params split: sum.splits)
  with "3.IH" [OF a r] show ?case by simp
qed

lemma add_tree_params:
  assumes "add_tree w root tree = Inr w'"
  shows "tz w' = tz w \<and> min_dt w' = min_dt w \<and> max_dt w' = max_dt w
   \<and> strict_timestamps w' = strict_timestamps w"
proof -
  from assms obtain d ds where
    "add_dirs (if d > modified w then w\<lparr>modified := d\<rparr> else w) ds = Inr w'"
    by (auto simp: add_tree_def split: sum.splits)
  from add_dirs_params [OF this] show ?thesis by (simp split: if_splits)
qed

lemma built_relaxed: "built w \<Longrightarrow> relaxed w"
proof (induction rule: built.induct)
  case (init tzv w)
  then show ?case by (auto simp: Wheel_init_def relaxed_def split: sum.splits)
next
  case (tree w root tree w')
  with add_tree_params [OF tree.hyps(2)] show ?case by (simp add: relaxed_def)
qed

lemma clamp_dt_relaxed:
  assumes "\<not> strict_timestamps w" "min_dt w \<le> max_dt w" "clamp_dt w l = Inr c"
  shows "min_dt w \<le> c"
  using assms by (auto simp: clamp_dt_def split: if_splits)

lemma zipinfo_time_ge:
  assumes "\<not> strict_timestamps w" "min_dt w \<le> max_dt w"
    and "make_zipinfo w p typ dt tr ex wr = Inr z"
  shows "timetuple6 (min_dt w) \<le> zi_date_time z"
proof -
  from assms(3) obtain l c where c: "clamp_dt w l = Inr c" "zi_date_time z = timetuple6 c"
    by (rule make_zipinfo_Inr)
  from clamp_dt_relaxed [OF assms(1,2) c(1)] have "min_dt w \<le> c" .
  with c(2) show ?thesis by (simp add: timetuple6_mono)
qed

lemma dir_time_floor:
  assumes "relaxed w" "min_dt w \<le> max_dt w"
    and "make_zipinfo w p (Some S_IFDIR) DtNone tr ex wr = Inr z"
  shows "zi_date_time z = timetuple6 (min_dt w)"
proof -
  from assms(3) obtain l c where l: "to_local w DtNone = Inr l"
    and c: "clamp_dt w l = Inr c" "zi_date_time z = timetuple6 c"
    by (rule make_zipinfo_Inr)
  from l assms(1) have "l = min_dt w" by (simp add: to_local_def relaxed_def)
  with c assms(1,2) show ?thesis by (auto simp: clamp_dt_def relaxed_def split: if_splits)
qed

lemma node_files_made:
  "r \<in> set (node_files w rel x) \<Longrightarrow> \<exists>p typ dt tr ex wr. r = make_zipinfo w p typ dt tr ex wr"
proof (induction w rel x rule: node_files.induct)
  case (1 w rel n mode mtime x_ok w_ok content)
  then have "r = make_zipinfo w (PurePosixPath (rel @ [n])) (Some mode) (DtNum mtime)
                   True x_ok w_ok"
    by (simp add: file_zipinfo_def)
  then show ?case by blast
next
  case (2 w rel n m ch)
  then show ?case by (auto split: if_splits)
next
  case (3 w rel n)
  then show ?case by simp
next
  case (4 w rel n)
  then show ?case by simp
qed

lemma descendant_files_made:
  "r \<in> set (descendant_files w rel tree)
   \<Longrightarrow> \<exists>p typ dt tr ex wr. r = make_zipinfo w p typ dt tr ex wr"
  unfolding set_descendant_files using node_files_made by blast

lemma is_max_of_unique: "is_max_of d0 T a \<Longrightarrow> is_max_of d0 T b \<Longrightarrow> a = b"
  unfolding is_max_of_def by (meson antisym)

lemma is_max_of_fold: "is_max_of d0 (set xs) (fold max xs d0)"
  unfolding is_max_of_def using fold_max_in [of xs d0] fold_max_upper [of _ xs d0]
    fold_max_ge [of d0 xs] by blast

lemma is_max_of_Max:
  assumes "is_max_of d0 T dt" "finite T" "T \<noteq> {}" "\<forall>t\<in>T. d0 \<le> t"
  shows "dt = Max T"
proof -
  from assms(1) have up: "\<forall>t\<in>T. t \<le> dt" and cases: "dt = d0 \<or> dt \<in> T"
    unfolding is_max_of_def by blast+
  from cases have "dt \<in> T"
  proof
    assume d: "dt = d0"
    from assms(3) obtain t where t: "t \<in> T" by blast
    with up assms(4) d have "t = d0" by (meson antisym)
    with t d show ?thesis by simp
  qed
  with up assms(2) show ?thesis by (intro Max_eqI [symmetric]) auto
qed

text \<open>
  C2. In a wheel built by \<open>Wheel.__init__\<close> and \<open>add_tree\<close>, whose lower bound is
  not above its upper bound, let \<open>add_tree\<close> succeed and visit a directory at the
  archive path \<open>rel\<close>, not a metadata directory and not the root. Then the archive has
  the directory entry \<open>rel/\<close>; every file below the directory has a \<open>ZipInfo\<close>
  and an entry in the archive; the timestamp of the directory entry is the greatest of the
  timestamps of those files and of the epoch floor, hence, when there is such a file, the
  maximum of their timestamps. The directory's own modification time occurs nowhere.
\<close>

theorem directory_timestamp:
  assumes b: "built w" and mm: "min_dt w \<le> max_dt w"
    and a: "add_tree w root tree = Inr w'"
    and r: "reached (strip_root (to_parts root)) tree rel tree'"
    and ne: "rel \<noteq> []" and nd: "\<not> is_dist_info rel"
    and nm: "as_posix rel \<noteq> []" "as_posix rel \<noteq> ''.''"
  shows "\<exists>dir files.
           (dir, None) \<in> set (entries w') \<and> filename dir = as_posix rel @ ''/''
         \<and> descendant_files w rel tree' = map Inr files
         \<and> list_all (\<lambda>f. \<exists>c. (f, Some c) \<in> set (entries w')) files
         \<and> zi_date_time dir = fold max (map zi_date_time files) (timetuple6 (min_dt w))
         \<and> (files \<noteq> [] \<longrightarrow> zi_date_time dir = Max (set (map zi_date_time files)))"
proof -
  let ?R = "strip_root (to_parts root)"
  let ?d0 = "timetuple6 (min_dt w)"
  from b have rx: "relaxed w" by (rule built_relaxed)
  from a obtain d ds where
    c: "collect_tree_info w ?R tree [] = Inr (d, ds)"
    and ad: "add_dirs (if d > modified w then w\<lparr>modified := d\<rparr> else w) ds = Inr w'"
    by (auto simp: add_tree_def split: sum.splits)
  from collect_sound(1) [OF c] have wk: "walk w ?R tree d ds" by simp
  from reached_walk [OF r wk] obtain dt' es' where
    wk': "walk w rel tree' dt' es'" and ss: "set es' \<subseteq> set ds" by blast
  have d0: "\<forall>p z. make_zipinfo w (PurePosixPath p) (Some S_IFDIR) DtNone True True True = Inr z
               \<longrightarrow> zi_date_time z = ?d0"
    using dir_time_floor [OF rx mm] by blast
  let ?D = "descendant_files w rel tree'"
  let ?T = "{zi_date_time z | z. Inr z \<in> set ?D}"
  from walk_times [OF wk' ne nd d0] obtain dir fs where
    all: "\<forall>r\<in>set ?D. \<exists>z. r = Inr z \<and> (\<exists>e\<in>entry_files es'. snd e = z)"
    and mx: "is_max_of ?d0 ?T dt'"
    and hd: "es' \<noteq> []" "hd es' = (ZipDir dir, fs)" "zi_date_time dir = dt'"
            "filename dir = as_posix rel @ ''/''"
    by blast
  define files where "files = map (\<lambda>r. case r of Inr z \<Rightarrow> z) ?D"
  have "map Inr files = ?D"
    unfolding files_def map_map by (rule map_idI) (use all in auto)
  then have D: "?D = map Inr files" by simp
  have T: "?T = set (map zi_date_time files)"
    by (auto simp: D)
  note ents = add_dirs_entries [OF ad]
  from hd(1,2) have "(ZipDir dir, fs) \<in> set es'" by (metis hd_in_set)
  with ss have din: "(ZipDir dir, fs) \<in> set ds" by blast
  have "filename dir \<notin> set ['''', ''.'', ''/'', ''./'']"
    using hd(4) nm by auto
  with ents din have e1: "(dir, None) \<in> set (entries w')" by blast
  have e2: "list_all (\<lambda>f. \<exists>c. (f, Some c) \<in> set (entries w')) files"
    unfolding list_all_iff
  proof
    fix f assume "f \<in> set files"
    then have "Inr f \<in> set ?D" by (simp add: D)
    with all obtain e where "e \<in> entry_files es'" "snd e = f" by blast
    then obtain z' fs' n c where "(ZipDir z', fs') \<in> set es'" "((n, c), f) \<in> set fs'"
      unfolding entry_files_def by (cases e) auto
    with ss ents show "\<exists>c. (f, Some c) \<in> set (entries w')" by blast
  qed
  from mx have mx': "is_max_of ?d0 (set (map zi_date_time files)) dt'" by (simp only: T)
  from is_max_of_unique [OF mx' is_max_of_fold] hd(3)
  have t1: "zi_date_time dir = fold max (map zi_date_time files) ?d0" by simp
  have t2: "zi_date_time dir = Max (set (map zi_date_time files))" if "files \<noteq> []"
  proof -
    have "\<forall>t\<in>set (map zi_date_time files). ?d0 \<le> t"
    proof
      fix t assume "t \<in> set (map zi_date_time files)"
      then obtain f where f: "Inr f \<in> set ?D" "t = zi_date_time f" by (auto simp: D)
      from descendant_files_made [OF f(1)] obtain p ty dt tr ex wr where
        "make_zipinfo w p ty dt tr ex wr = Inr f" by metis
      from zipinfo_time_ge [OF _ mm this] rx f(2) show "?d0 \<le> t" by (simp add: relaxed_def)
    qed
    with is_max_of_Max [OF mx'] that hd(3) show ?thesis by simp
  qed
  from e1 hd(4) D e2 t1 t2 show ?thesis by blast
qed

text \<open>
  The directory \<open>a/\<close> of the example is archived with the timestamp of
  \<open>a/sub/y\<close>.
\<close>

theorem directory_timestamp_witness:
  "\<exists>w' dir. add_tree fields_wheel (Str ''.'') demo_dirs = Inr w'
      \<and> (dir, None) \<in> set (entries w') \<and> filename dir = ''a/''
      \<and> zi_date_time dir = (2021, 1, 1, 0, 0, 0)"
proof -
  have "case add_tree fields_wheel (Str ''.'') demo_dirs of Inl e \<Rightarrow> False | Inr w' \<Rightarrow> True"
    by code_simp
  then obtain w' where a: "add_tree fields_wheel (Str ''.'') demo_dirs = Inr w'"
    by (auto split: sum.splits)
  have b: "built fields_wheel" by (rule built.init [OF fields_wheel_init])
  have mm: "min_dt fields_wheel \<le> max_dt fields_wheel"
    by (simp add: fields_wheel_def less_eq_prod_def)
  have root: "strip_root (to_parts (Str ''.'')) = []" by code_simp
  have "reached [] demo_dirs ([] @ [''a'']) demo_sub"
    by (rule reached.sub [OF reached.top, of _ "(2030, 1, 1, 0, 0, 0, 0)"])
       (simp_all add: demo_dirs_def)
  then have r: "reached (strip_root (to_parts (Str ''.''))) demo_dirs [''a''] demo_sub"
    by (simp only: root append_Nil)
  have nd: "\<not> is_dist_info [''a'']" by code_simp
  have nm: "as_posix [''a''] \<noteq> []" "as_posix [''a''] \<noteq> ''.''" by code_simp+
  have ts: "map (map_sum id zi_date_time) (descendant_files fields_wheel [''a''] demo_sub)
            = [Inr (2020, 1, 1, 0, 0, 0), Inr (2021, 1, 1, 0, 0, 0)]"
    by code_simp
  have ap: "as_posix [''a''] @ ''/'' = ''a/''" by code_simp
  from directory_timestamp [OF b mm a r _ nd nm] obtain dir files where
    e: "(dir, None) \<in> set (entries w')" "filename dir = as_posix [''a''] @ ''/''"
    and D: "descendant_files fields_wheel [''a''] demo_sub = map Inr files"
    and t: "zi_date_time dir
            = fold max (map zi_date_time files) (timetuple6 (min_dt fields_wheel))"
    by blast
  from ts D have "map (\<lambda>f. Inr (zi_date_time f) :: error + date_time) files
                  = [Inr (2020, 1, 1, 0, 0, 0), Inr (2021, 1, 1, 0, 0, 0)]"
    by (simp add: comp_def)
  then obtain f1 f2 where "files = [f1, f2]" "zi_date_time f1 = (2020, 1, 1, 0, 0, 0)"
    "zi_date_time f2 = (2021, 1, 1, 0, 0, 0)"
    by (auto simp: map_eq_Cons_conv)
  with t have "zi_date_time dir = (2021, 1, 1, 0, 0, 0)"
    by (simp add: fields_wheel_def max_def less_eq_prod_def)
  with a e ap show ?thesis by auto
qed


end
